theory Spec2Isabelle
  imports Complex_Main "HOL-Library.Sublist" "HOL-Library.Word"
begin

section \<open>Court case reminder: the logic of \<open>src/src/App.js\<close>\<close>

text \<open>
  The component \<open>App\<close> keeps one array of cases in React state and mirrors it to
  \<open>localStorage\<close>. Each handler of the component is embedded as a function of the state
  it reads (the case array, the form, the filters), of the clock reading it takes and of
  the time zone of the browser. Strings are lists of code units, and the records of the
  state leave the type of the code unit open. Dates, alerts and JSON text are read and
  written over \<open>char\<close>, which stands for the code units U+0000 to U+00FF; the search,
  which lower-cases what the user typed, is taken over the 16-bit code units of UTF-16.
  A number that the code only ever uses as an integer
  (an id, a time value in milliseconds) is an \<open>int\<close>; a time value that can be NaN is an
  \<open>int option\<close> with \<open>None\<close> for NaN.
\<close>

subsection \<open>The data: form, case, exceptions\<close>

text \<open>
  The \<open>formData\<close> state object (lines 33 to 42): eight strings, of code units
  \<open>'u\<close>.
\<close>

record 'u formData =
  caseNumber :: "'u list"
  courtName :: "'u list"
  caseType :: "'u list"
  clientName :: "'u list"
  opponentName :: "'u list"
  hearingDate :: "'u list"
  caseStatus :: "'u list"
  notes_field :: "'u list"

text \<open>
  A case is \<open>{ id: Date.now(), ...formData, createdAt: new Date().toISOString() }\<close>
  (lines 135 to 139): the form's fields, a numeric id and a creation stamp.
\<close>

record 'u caseItem = "'u formData" +
  id_field :: int
  createdAt :: "'u list"

text \<open>The exceptions that the built-ins used by the component can throw.\<close>

datatype error = RangeError | SyntaxError | QuotaExceededError

subsection \<open>Time values (ECMAScript, Date objects)\<close>

text \<open>
  The day and year arithmetic of the language standard: a time value counts milliseconds
  from 1970-01-01T00:00:00Z, a day number counts days from the same instant.
\<close>

definition msPerDay :: int where
  "msPerDay = 86400000"

definition msPerMinute :: int where
  "msPerMinute = 60000"

definition Day :: "int \<Rightarrow> int" where
  "Day t = t div msPerDay"

definition TimeWithinDay :: "int \<Rightarrow> int" where
  "TimeWithinDay t = t mod msPerDay"

definition DayFromYear :: "int \<Rightarrow> int" where
  "DayFromYear y =
     365 * (y - 1970) + (y - 1969) div 4 - (y - 1901) div 100 + (y - 1601) div 400"

definition isLeapYear :: "int \<Rightarrow> bool" where
  "isLeapYear y = (y mod 4 = 0 \<and> (y mod 100 \<noteq> 0 \<or> y mod 400 = 0))"

text \<open>
  The year of a day number: the standard asks for the largest \<open>y\<close> with
  \<open>DayFromYear y \<le> d\<close>; an estimate from the mean year length is off by at most one.
\<close>

definition YearFromDay :: "int \<Rightarrow> int" where
  "YearFromDay d =
     (let y = 1970 + (400 * d) div 146097
      in if d < DayFromYear y then y - 1
         else if DayFromYear (y + 1) \<le> d then y + 1
         else y)"

definition DayWithinYear :: "int \<Rightarrow> int" where
  "DayWithinYear d = d - DayFromYear (YearFromDay d)"

text \<open>The day within the year on which month \<open>m\<close> (0 to 11) starts.\<close>

definition monthStart :: "bool \<Rightarrow> int \<Rightarrow> int" where
  "monthStart leap m =
     [0, 31, 59, 90, 120, 151, 181, 212, 243, 273, 304, 334] ! nat m
       + (if leap \<and> 2 \<le> m then 1 else 0)"

definition MonthFromDay :: "int \<Rightarrow> int" where
  "MonthFromDay d =
     (let leap = isLeapYear (YearFromDay d); w = DayWithinYear d
      in if w < monthStart leap 1 then 0
         else if w < monthStart leap 2 then 1
         else if w < monthStart leap 3 then 2
         else if w < monthStart leap 4 then 3
         else if w < monthStart leap 5 then 4
         else if w < monthStart leap 6 then 5
         else if w < monthStart leap 7 then 6
         else if w < monthStart leap 8 then 7
         else if w < monthStart leap 9 then 8
         else if w < monthStart leap 10 then 9
         else if w < monthStart leap 11 then 10
         else 11)"

definition DateFromDay :: "int \<Rightarrow> int" where
  "DateFromDay d =
     DayWithinYear d - monthStart (isLeapYear (YearFromDay d)) (MonthFromDay d) + 1"

definition YearFromTime :: "int \<Rightarrow> int" where
  "YearFromTime t = YearFromDay (Day t)"

definition MonthFromTime :: "int \<Rightarrow> int" where
  "MonthFromTime t = MonthFromDay (Day t)"

definition DateFromTime :: "int \<Rightarrow> int" where
  "DateFromTime t = DateFromDay (Day t)"

text \<open>
  \<open>MakeDay\<close> accepts any month and any date: a month beyond 11 carries into the year and
  a date beyond the month's length carries into the following month.
\<close>

definition MakeDay :: "int \<Rightarrow> int \<Rightarrow> int \<Rightarrow> int" where
  "MakeDay year month date =
     (let ym = year + month div 12; mn = month mod 12
      in DayFromYear ym + monthStart (isLeapYear ym) mn + date - 1)"

definition MakeDate :: "int \<Rightarrow> int \<Rightarrow> int" where
  "MakeDate day time = day * msPerDay + time"

definition TimeClip :: "int \<Rightarrow> int option" where
  "TimeClip t = (if \<bar>t\<bar> > 8640000000000000 then None else Some t)"

text \<open>
  The time zone of the browser is a parameter: \<open>tz\<close> is its offset from UTC in minutes,
  positive east of Greenwich (so \<open>getTimezoneOffset()\<close> is \<open>- tz\<close>). The offset is fixed:
  a zone whose offset changes over the year is not modelled.
\<close>

definition LocalTime :: "int \<Rightarrow> int \<Rightarrow> int" where
  "LocalTime tz t = t + tz * msPerMinute"

definition UTC :: "int \<Rightarrow> int \<Rightarrow> int" where
  "UTC tz t = t - tz * msPerMinute"

definition getMonth :: "int \<Rightarrow> int option \<Rightarrow> int option" where
  "getMonth tz d = (case d of None \<Rightarrow> None | Some t \<Rightarrow> Some (MonthFromTime (LocalTime tz t)))"

text \<open>\<open>d.setMonth(month)\<close>: the new time value of \<open>d\<close>; a NaN argument or a NaN date gives NaN.\<close>

definition setMonth :: "int \<Rightarrow> int option \<Rightarrow> int option \<Rightarrow> int option" where
  "setMonth tz d month =
     (case d of
        None \<Rightarrow> None
      | Some t \<Rightarrow>
          (case month of
             None \<Rightarrow> None
           | Some m \<Rightarrow>
               (let lt = LocalTime tz t;
                    newDate = MakeDate (MakeDay (YearFromTime lt) m (DateFromTime lt))
                                (TimeWithinDay lt)
                in TimeClip (UTC tz newDate))))"

text \<open>\<open>d.setHours(0, 0, 0, 0)\<close>: midnight, local time, of the local day of \<open>d\<close>.\<close>

definition setHours0 :: "int \<Rightarrow> int option \<Rightarrow> int option" where
  "setHours0 tz d =
     (case d of
        None \<Rightarrow> None
      | Some t \<Rightarrow> TimeClip (UTC tz (MakeDate (Day (LocalTime tz t)) 0)))"

subsection \<open>Date strings\<close>

definition digitVal :: "char \<Rightarrow> int option" where
  "digitVal c = map_of (zip ''0123456789'' [0, 1, 2, 3, 4, 5, 6, 7, 8, 9]) c"

fun digitsVal :: "int \<Rightarrow> string \<Rightarrow> int option" where
  "digitsVal acc [] = Some acc"
| "digitsVal acc (c # cs) =
     (case digitVal c of
        None \<Rightarrow> None
      | Some v \<Rightarrow> digitsVal (10 * acc + v) cs)"

text \<open>
  The year of a date string: four digits, or a sign and six digits (the expanded years
  that \<open>toISOString\<close> writes beyond 9999); \<open>-000000\<close> is not a year. The rest of the
  string is returned.
\<close>

definition parseYear :: "string \<Rightarrow> (int \<times> string) option" where
  "parseYear s =
     (case s of
        [] \<Rightarrow> None
      | c # rest \<Rightarrow>
          if c = CHR ''+'' \<or> c = CHR ''-'' then
            (if length rest < 6 then None
             else (case digitsVal 0 (take 6 rest) of
                     None \<Rightarrow> None
                   | Some y \<Rightarrow>
                       if c = CHR ''-'' then (if y = 0 then None else Some (- y, drop 6 rest))
                       else Some (y, drop 6 rest)))
          else
            (if length s < 4 then None
             else (case digitsVal 0 (take 4 s) of
                     None \<Rightarrow> None
                   | Some y \<Rightarrow> Some (y, drop 4 s))))"

text \<open>A hyphen and two digits: the month or the day of a date string.\<close>

definition parseField :: "string \<Rightarrow> (int \<times> string) option" where
  "parseField s =
     (case s of
        c # a # b # rest \<Rightarrow>
          if c = CHR ''-'' then
            (case digitsVal 0 [a, b] of None \<Rightarrow> None | Some v \<Rightarrow> Some (v, rest))
          else None
      | _ \<Rightarrow> None)"

definition DaysInMonth :: "int \<Rightarrow> int \<Rightarrow> int" where
  "DaysInMonth y m =
     (if m = 1 then (if isLeapYear y then 29 else 28)
      else if m = 3 \<or> m = 5 \<or> m = 8 \<or> m = 10 then 30
      else 31)"

text \<open>The time value of a calendar date at 00:00 UTC; month \<open>m\<close> counts from 1 here.\<close>

definition utcMidnight :: "int \<Rightarrow> int \<Rightarrow> int \<Rightarrow> int option" where
  "utcMidnight y m d =
     (if 1 \<le> m \<and> m \<le> 12 \<and> 1 \<le> d \<and> d \<le> DaysInMonth y (m - 1)
      then TimeClip (MakeDate (MakeDay y (m - 1) d) 0)
      else None)"

text \<open>
  \<open>new Date(s)\<close> for a string \<open>s\<close>: the date-only forms of the standard's date-time
  string format, \<open>YYYY\<close>, \<open>YYYY-MM\<close> and \<open>YYYY-MM-DD\<close>, which are read as UTC. The date
  input of the form (line 392) yields \<open>YYYY-MM-DD\<close> or the empty string, and
  \<open>moveToNextHearing\<close> writes the same form back. A string with an illegal field, and any
  string of another form (the standard leaves those to the browser), is an Invalid Date.
\<close>

definition Date_parse :: "string \<Rightarrow> int option" where
  "Date_parse s =
     (case parseYear s of
        None \<Rightarrow> None
      | Some (y, r1) \<Rightarrow>
          if r1 = [] then utcMidnight y 1 1
          else (case parseField r1 of
                  None \<Rightarrow> None
                | Some (m, r2) \<Rightarrow>
                    if r2 = [] then utcMidnight y m 1
                    else (case parseField r2 of
                            None \<Rightarrow> None
                          | Some (d, r3) \<Rightarrow> if r3 = [] then utcMidnight y m d else None)))"

text \<open>Decimal digits at a fixed width, as \<open>toISOString\<close> pads them.\<close>

primrec pad :: "nat \<Rightarrow> int \<Rightarrow> string" where
  "pad 0 k = []"
| "pad (Suc n) k = pad n (k div 10) @ [''0123456789'' ! nat (k mod 10)]"

definition yearString :: "int \<Rightarrow> string" where
  "yearString y =
     (if 0 \<le> y \<and> y \<le> 9999 then pad 4 y
      else if y < 0 then CHR ''-'' # pad 6 (- y)
      else CHR ''+'' # pad 6 y)"

text \<open>The UTC fields of a time value, as \<open>toISOString\<close> writes them.\<close>

definition isoOfTime :: "int \<Rightarrow> string" where
  "isoOfTime t =
     (let w = TimeWithinDay t
      in yearString (YearFromTime t) @ ''-'' @ pad 2 (MonthFromTime t + 1) @ ''-''
         @ pad 2 (DateFromTime t) @ ''T'' @ pad 2 (w div 3600000) @ '':''
         @ pad 2 (w div 60000 mod 60) @ '':'' @ pad 2 (w div 1000 mod 60) @ ''.''
         @ pad 3 (w mod 1000) @ ''Z'')"

text \<open>\<open>d.toISOString()\<close>: a RangeError on an Invalid Date.\<close>

definition toISOString :: "int option \<Rightarrow> error + string" where
  "toISOString d = (case d of None \<Rightarrow> Inl RangeError | Some t \<Rightarrow> Inr (isoOfTime t))"

text \<open>\<open>s.split('T')[0]\<close>: the part of \<open>s\<close> before its first \<open>T\<close>.\<close>

definition splitT0 :: "string \<Rightarrow> string" where
  "splitT0 s = takeWhile (\<lambda>c. c \<noteq> CHR ''T'') s"

subsection \<open>Moving a hearing to the next month\<close>

text \<open>
  The callback that \<open>moveToNextHearing\<close> maps over the array (lines 168 to 187). A case
  with another id is returned as it is. On the case with the id, \<open>toISOString\<close> throws
  when the hearing date is an Invalid Date.
\<close>

definition advanceCase :: "int \<Rightarrow> int \<Rightarrow> char caseItem \<Rightarrow> error + char caseItem" where
  "advanceCase tz caseId caseItem =
     (if id_field caseItem = caseId then
        (let currentDate = Date_parse (hearingDate caseItem);
             nextDate = setMonth tz currentDate
                          (case getMonth tz currentDate of None \<Rightarrow> None | Some m \<Rightarrow> Some (m + 1))
         in case toISOString nextDate of
              Inl e \<Rightarrow> Inl e
            | Inr isoString \<Rightarrow>
                Inr (caseItem\<lparr>hearingDate := splitT0 isoString, caseStatus := ''Adjourned''\<rparr>))
      else Inr caseItem)"

text \<open>\<open>prev.map(f)\<close> for a callback that can throw: the first exception ends the call.\<close>

fun mapE :: "('a \<Rightarrow> error + 'b) \<Rightarrow> 'a list \<Rightarrow> error + 'b list" where
  "mapE f [] = Inr []"
| "mapE f (x # xs) =
     (case f x of
        Inl e \<Rightarrow> Inl e
      | Inr y \<Rightarrow> (case mapE f xs of Inl e \<Rightarrow> Inl e | Inr ys \<Rightarrow> Inr (y # ys)))"

text \<open>
  \<open>moveToNextHearing caseId\<close> applied to the case array \<open>prev\<close>: the new case array,
  or the exception of the updater, after which no new array is set.
\<close>

definition moveToNextHearing ::
  "int \<Rightarrow> int \<Rightarrow> char caseItem list \<Rightarrow> error + char caseItem list" where
  "moveToNextHearing tz caseId prev = mapE (advanceCase tz caseId) prev"

subsection \<open>Deleting a case\<close>

text \<open>
  \<open>deleteCase caseId\<close> applied to the case array \<open>prev\<close> (lines 195 to 199);
  \<open>confirmed\<close> is the answer of \<open>window.confirm\<close>.
\<close>

definition deleteCase :: "bool \<Rightarrow> int \<Rightarrow> 'u caseItem list \<Rightarrow> 'u caseItem list" where
  "deleteCase confirmed caseId prev =
     (if confirmed then filter (\<lambda>caseItem. id_field caseItem \<noteq> caseId) prev else prev)"

subsection \<open>The state of the component\<close>

text \<open>
  The state that the handlers read and write (lines 30 to 50): the case array, the form,
  the search term and the two filters, and the visibility of the form.
\<close>

record 'u app =
  cases :: "'u caseItem list"
  formData :: "'u formData"
  searchTerm :: "'u list"
  filterCourt :: "'u list"
  filterCaseType :: "'u list"
  showForm :: bool

definition emptyForm :: "char formData" where
  "emptyForm =
     \<lparr>caseNumber = [], courtName = [], caseType = ''Civil'', clientName = [],
      opponentName = [], hearingDate = [], caseStatus = ''Pending'', notes_field = []\<rparr>"

subsection \<open>Adding a case\<close>

text \<open>
  \<open>handleSubmit\<close> (lines 125 to 160) reads the clock twice: \<open>t_id\<close> is the value of
  \<open>Date.now()\<close>, \<open>t_created\<close> the time value of \<open>new Date()\<close>, which is never invalid.
  The result is the text of the alert and the state after the handler. A string is falsy
  exactly when it is empty.
\<close>

definition newCase :: "int \<Rightarrow> int \<Rightarrow> char formData \<Rightarrow> char caseItem" where
  "newCase t_id t_created fd =
     \<lparr>caseNumber = caseNumber fd, courtName = courtName fd, caseType = caseType fd,
      clientName = clientName fd, opponentName = opponentName fd,
      hearingDate = hearingDate fd, caseStatus = caseStatus fd, notes_field = notes_field fd,
      id_field = t_id, createdAt = isoOfTime t_created\<rparr>"

definition handleSubmit :: "int \<Rightarrow> int \<Rightarrow> char app \<Rightarrow> string \<times> char app" where
  "handleSubmit t_id t_created st =
     (let fd = formData st
      in if caseNumber fd = [] \<or> courtName fd = [] \<or> clientName fd = [] \<or> hearingDate fd = []
         then (''Please fill in all required fields (Case Number, Court Name, Client Name, Hearing Date)'',
               st)
         else (''Case added successfully!'',
               st\<lparr>cases := cases st @ [newCase t_id t_created fd],
                  formData := emptyForm,
                  showForm := False\<rparr>))"

subsection \<open>Upcoming hearings and urgency\<close>

text \<open>\<open>a >= b\<close> on two dates: false as soon as one of them is NaN.\<close>

definition geDate :: "int option \<Rightarrow> int option \<Rightarrow> bool" where
  "geDate a b = (case a of None \<Rightarrow> False | Some x \<Rightarrow> (case b of None \<Rightarrow> False | Some y \<Rightarrow> y \<le> x))"

text \<open>\<open>a - b\<close> on two dates: NaN as soon as one of them is NaN.\<close>

definition subDate :: "int option \<Rightarrow> int option \<Rightarrow> int option" where
  "subDate a b =
     (case a of None \<Rightarrow> None | Some x \<Rightarrow> (case b of None \<Rightarrow> None | Some y \<Rightarrow> Some (x - y)))"

text \<open>
  \<open>Array.prototype.sort\<close> with a comparator: the sort is stable, and a comparator value
  of NaN counts as zero. Insertion from the right end places an element before the
  elements that do not sort strictly before it, which is the stable order.
\<close>

definition sortCompare :: "('a \<Rightarrow> 'a \<Rightarrow> int option) \<Rightarrow> 'a \<Rightarrow> 'a \<Rightarrow> int" where
  "sortCompare comparefn x y = (case comparefn x y of None \<Rightarrow> 0 | Some v \<Rightarrow> v)"

fun insertBy :: "('a \<Rightarrow> 'a \<Rightarrow> int option) \<Rightarrow> 'a \<Rightarrow> 'a list \<Rightarrow> 'a list" where
  "insertBy comparefn x [] = [x]"
| "insertBy comparefn x (y # ys) =
     (if sortCompare comparefn x y \<le> 0 then x # y # ys else y # insertBy comparefn x ys)"

definition sortBy :: "('a \<Rightarrow> 'a \<Rightarrow> int option) \<Rightarrow> 'a list \<Rightarrow> 'a list" where
  "sortBy comparefn xs = foldr (insertBy comparefn) xs []"

text \<open>
  \<open>getUpcomingHearings\<close> (lines 205 to 218); \<open>now\<close> is the time value of \<open>new Date()\<close>.
  \<open>isUpcoming\<close> is the callback of the filter (lines 210 to 214), with \<open>today\<close> computed
  as at lines 206 and 207; \<open>byHearingDate\<close> is the comparator of the sort (line 216).
\<close>

definition isUpcoming :: "int \<Rightarrow> int \<Rightarrow> char caseItem \<Rightarrow> bool" where
  "isUpcoming tz now caseItem =
     (let today = setHours0 tz (Some now);
          hearing = setHours0 tz (Date_parse (hearingDate caseItem))
      in geDate hearing today)"

definition byHearingDate :: "char caseItem \<Rightarrow> char caseItem \<Rightarrow> int option" where
  "byHearingDate a b = subDate (Date_parse (hearingDate a)) (Date_parse (hearingDate b))"

definition getUpcomingHearings :: "int \<Rightarrow> int \<Rightarrow> char app \<Rightarrow> char caseItem list" where
  "getUpcomingHearings tz now st = sortBy byHearingDate (filter (isUpcoming tz now) (cases st))"

text \<open>
  The sort key of a case that passed the filter: the time value of its hearing date
  (0 stands in where the date is invalid, which the filter excludes).
\<close>

definition hearingTime :: "char caseItem \<Rightarrow> int" where
  "hearingTime c = (case Date_parse (hearingDate c) of None \<Rightarrow> 0 | Some t \<Rightarrow> t)"

text \<open>
  \<open>Math.ceil(diffTime / (1000 * 60 * 60 * 24))\<close>. Both operands of the subtraction are
  local midnights, so in a zone of fixed offset \<open>diffTime\<close> is a whole number of days
  and the quotient is exact.
\<close>

definition ceilDays :: "int option \<Rightarrow> int option" where
  "ceilDays diffTime = (case diffTime of None \<Rightarrow> None | Some x \<Rightarrow> Some (- ((- x) div msPerDay)))"

text \<open>
  \<open>isWithin7Days\<close> (lines 224 to 235); \<open>dateString\<close> is its argument, the
  \<open>hearingDate\<close> of a case.
\<close>

definition isWithin7Days :: "int \<Rightarrow> int \<Rightarrow> string \<Rightarrow> bool" where
  "isWithin7Days tz now dateString =
     (let today = setHours0 tz (Some now);
          hearing = setHours0 tz (Date_parse dateString);
          diffTime = subDate hearing today;
          diffDays = ceilDays diffTime
      in case diffDays of None \<Rightarrow> False | Some n \<Rightarrow> 0 \<le> n \<and> n \<le> 7)"

subsection \<open>Searching and filtering\<close>

text \<open>
  \<open>s.toLowerCase()\<close> (ECMAScript, \<open>String.prototype.toLowerCase\<close>) takes the code
  points of \<open>s\<close>, converts them to lower case by the default case conversion of
  Unicode, and returns the code units of the result. First the code points of a string
  (\<open>StringToCodePoints\<close>): a leading surrogate followed by a trailing one is one code
  point above U+FFFF, every other code unit is a code point by itself.
\<close>

definition isLeadingSurrogate :: "16 word \<Rightarrow> bool" where
  "isLeadingSurrogate u = (0xD800 \<le> u \<and> u \<le> 0xDBFF)"

definition isTrailingSurrogate :: "16 word \<Rightarrow> bool" where
  "isTrailingSurrogate u = (0xDC00 \<le> u \<and> u \<le> 0xDFFF)"

definition UTF16SurrogatePairToCodePoint :: "16 word \<Rightarrow> 16 word \<Rightarrow> nat" where
  "UTF16SurrogatePairToCodePoint lead trail =
     (unat lead - 0xD800) * 0x400 + (unat trail - 0xDC00) + 0x10000"

fun StringToCodePoints :: "16 word list \<Rightarrow> nat list" where
  "StringToCodePoints [] = []"
| "StringToCodePoints [u] = [unat u]"
| "StringToCodePoints (u # v # rest) =
     (if isLeadingSurrogate u \<and> isTrailingSurrogate v
      then UTF16SurrogatePairToCodePoint u v # StringToCodePoints rest
      else unat u # StringToCodePoints (v # rest))"

text \<open>The code units of a sequence of code points (\<open>CodePointsToString\<close>).\<close>

definition UTF16EncodeCodePoint :: "nat \<Rightarrow> 16 word list" where
  "UTF16EncodeCodePoint cp =
     (if cp \<le> 0xFFFF then [of_nat cp]
      else [of_nat ((cp - 0x10000) div 0x400 + 0xD800),
            of_nat ((cp - 0x10000) mod 0x400 + 0xDC00)])"

definition CodePointsToString :: "nat list \<Rightarrow> 16 word list" where
  "CodePointsToString cps = concat (map UTF16EncodeCodePoint cps)"

text \<open>
  The lower-case mapping of a code point, with the unconditional mappings of
  \<open>SpecialCasing.txt\<close>: U+0130 becomes the two code points U+0069 U+0307. The tables
  of the Unicode Character Database are written out here for U+0000 to U+00FF (Basic
  Latin and the Latin-1 Supplement), U+0130, U+0307 and U+0386 to U+03CE (the Greek
  letters); a code point outside these is left as it is and counts as neither cased
  nor case-ignorable, and nothing below is stated about text that contains one.
\<close>

definition Lowercase_Mapping :: "nat \<Rightarrow> nat list" where
  "Lowercase_Mapping c =
     (if (0x41 \<le> c \<and> c \<le> 0x5A) \<or> (0xC0 \<le> c \<and> c \<le> 0xDE \<and> c \<noteq> 0xD7) then [c + 32]
      else if c = 0x130 then [0x69, 0x307]
      else if c = 0x386 then [0x3AC]
      else if 0x388 \<le> c \<and> c \<le> 0x38A then [c + 37]
      else if c = 0x38C then [0x3CC]
      else if c = 0x38E \<or> c = 0x38F then [c + 63]
      else if 0x391 \<le> c \<and> c \<le> 0x3AB \<and> c \<noteq> 0x3A2 then [c + 32]
      else [c])"

text \<open>
  The properties \<open>Cased\<close> (letters that are upper case, lower case or title case)
  and \<open>Case_Ignorable\<close> (apostrophe, full stop, colon, the spacing and combining
  accents, the soft hyphen, the middle dots) of the same code points.
\<close>

definition Cased :: "nat \<Rightarrow> bool" where
  "Cased c =
     ((0x41 \<le> c \<and> c \<le> 0x5A) \<or> (0x61 \<le> c \<and> c \<le> 0x7A) \<or>
      c = 0xAA \<or> c = 0xB5 \<or> c = 0xBA \<or>
      (0xC0 \<le> c \<and> c \<le> 0xFF \<and> c \<noteq> 0xD7 \<and> c \<noteq> 0xF7) \<or>
      c = 0x130 \<or>
      (0x386 \<le> c \<and> c \<le> 0x3CE \<and> c \<noteq> 0x387 \<and> c \<noteq> 0x38B \<and> c \<noteq> 0x38D \<and> c \<noteq> 0x3A2))"

definition Case_Ignorable :: "nat \<Rightarrow> bool" where
  "Case_Ignorable c =
     (c \<in> {0x27, 0x2E, 0x3A, 0x5E, 0x60, 0xA8, 0xAD, 0xAF, 0xB4, 0xB7, 0xB8, 0x307, 0x387})"

text \<open>
  The one mapping that depends on the context: U+03A3, capital sigma, becomes the final
  small sigma U+03C2 when a cased letter comes before it, case-ignorable code points
  skipped, and none comes after it in the same way (the condition \<open>Final_Sigma\<close>);
  otherwise it becomes U+03C3. \<open>preceding\<close> holds the code points before the sigma,
  the nearest first, \<open>following\<close> the ones after it.
\<close>

fun casedAhead :: "nat list \<Rightarrow> bool" where
  "casedAhead [] = False"
| "casedAhead (c # cs) = (Cased c \<or> (Case_Ignorable c \<and> casedAhead cs))"

definition Final_Sigma :: "nat list \<Rightarrow> nat list \<Rightarrow> bool" where
  "Final_Sigma preceding following = (casedAhead preceding \<and> \<not> casedAhead following)"

fun toLowercase :: "nat list \<Rightarrow> nat list \<Rightarrow> nat list" where
  "toLowercase preceding [] = []"
| "toLowercase preceding (c # following) =
     (if c = 0x3A3 \<and> Final_Sigma preceding following then [0x3C2] else Lowercase_Mapping c)
     @ toLowercase (c # preceding) following"

definition toLowerCase :: "16 word list \<Rightarrow> 16 word list" where
  "toLowerCase s = CodePointsToString (toLowercase [] (StringToCodePoints s))"

text \<open>\<open>s.includes(t)\<close>: \<open>t\<close> occurs in \<open>s\<close> at some position.\<close>

fun startsWith :: "'a list \<Rightarrow> 'a list \<Rightarrow> bool" where
  "startsWith s [] = True"
| "startsWith [] (t # ts) = False"
| "startsWith (c # cs) (t # ts) = (c = t \<and> startsWith cs ts)"

fun includes_str :: "'a list \<Rightarrow> 'a list \<Rightarrow> bool" where
  "includes_str [] t = (t = [])"
| "includes_str (c # cs) t = (startsWith (c # cs) t \<or> includes_str cs t)"

text \<open>\<open>getFilteredCases\<close> (lines 240 to 255).\<close>

definition getFilteredCases :: "16 word app \<Rightarrow> 16 word caseItem list" where
  "getFilteredCases st =
     filter (\<lambda>caseItem.
        (let matchesSearch = (searchTerm st = [] \<or>
               includes_str (toLowerCase (caseNumber caseItem)) (toLowerCase (searchTerm st)) \<or>
               includes_str (toLowerCase (clientName caseItem)) (toLowerCase (searchTerm st)));
             matchesCourt = (filterCourt st = [] \<or> courtName caseItem = filterCourt st);
             matchesCaseType = (filterCaseType st = [] \<or> caseType caseItem = filterCaseType st)
         in matchesSearch \<and> matchesCourt \<and> matchesCaseType))
       (cases st)"

subsection \<open>JSON text\<close>

text \<open>
  The values that \<open>JSON.parse\<close> builds and \<open>JSON.stringify\<close> writes. A number is an
  integer here, as the ids are; an object is the list of its members in the order of the
  text, and reading a property takes the last member with the key.
\<close>

datatype json =
    JNull
  | JBool bool
  | JNum int
  | JStr string
  | JArr "json list"
  | JObj "(string \<times> json) list"

text \<open>The decimal digits of a natural number, without leading zeros.\<close>

function digitsOfNat :: "nat \<Rightarrow> string" where
  "digitsOfNat n =
     (if n < 10 then [''0123456789'' ! n]
      else digitsOfNat (n div 10) @ [''0123456789'' ! (n mod 10)])"
  by pat_completeness auto
termination
  by (relation "measure id") auto

text \<open>\<open>Number::toString\<close> on an integer (below \<open>10^21\<close> in absolute value).\<close>

definition numberToString :: "int \<Rightarrow> string" where
  "numberToString i = (if i < 0 then CHR ''-'' # digitsOfNat (nat (- i)) else digitsOfNat (nat i))"

text \<open>
  \<open>QuoteJSONString\<close>: the quotation mark, the backslash and the control characters are
  escaped, the latter by their short names or as \<open>\u00XX\<close> with lower-case hexadecimal
  digits.
\<close>

definition escapeChar :: "char \<Rightarrow> string" where
  "escapeChar c =
     (if c = CHR 0x08 then [CHR 0x5C, CHR ''b'']
      else if c = CHR 0x09 then [CHR 0x5C, CHR ''t'']
      else if c = CHR 0x0A then [CHR 0x5C, CHR ''n'']
      else if c = CHR 0x0C then [CHR 0x5C, CHR ''f'']
      else if c = CHR 0x0D then [CHR 0x5C, CHR ''r'']
      else if c = CHR 0x22 then [CHR 0x5C, CHR 0x22]
      else if c = CHR 0x5C then [CHR 0x5C, CHR 0x5C]
      else if (of_char c :: nat) < 32 then
        [CHR 0x5C, CHR ''u'', CHR ''0'', CHR ''0'',
         ''0123456789abcdef'' ! ((of_char c :: nat) div 16),
         ''0123456789abcdef'' ! ((of_char c :: nat) mod 16)]
      else [c])"

definition QuoteJSONString :: "string \<Rightarrow> string" where
  "QuoteJSONString s = CHR 0x22 # concat (map escapeChar s) @ [CHR 0x22]"

fun commaSep :: "string list \<Rightarrow> string" where
  "commaSep [] = []"
| "commaSep [x] = x"
| "commaSep (x # y # ys) = x @ CHR '','' # commaSep (y # ys)"

text \<open>\<open>JSON.stringify\<close> without indentation.\<close>

fun stringifyValue :: "json \<Rightarrow> string" where
  "stringifyValue JNull = ''null''"
| "stringifyValue (JBool b) = (if b then ''true'' else ''false'')"
| "stringifyValue (JNum i) = numberToString i"
| "stringifyValue (JStr s) = QuoteJSONString s"
| "stringifyValue (JArr vs) = CHR ''['' # commaSep (map stringifyValue vs) @ '']''"
| "stringifyValue (JObj ms) =
     CHR ''{'' # commaSep (map (\<lambda>(k, v). QuoteJSONString k @ CHR '':'' # stringifyValue v) ms)
       @ ''}''"

text \<open>Reading JSON text: white space, strings, numbers.\<close>

definition isWs :: "char \<Rightarrow> bool" where
  "isWs c = (c = CHR '' '' \<or> c = CHR 0x09 \<or> c = CHR 0x0A \<or> c = CHR 0x0D)"

definition skipWs :: "string \<Rightarrow> string" where
  "skipWs s = dropWhile isWs s"

definition hexVal :: "char \<Rightarrow> nat option" where
  "hexVal c =
     map_of (zip ''0123456789abcdefABCDEF''
               [0, 1, 2, 3, 4, 5, 6, 7, 8, 9, 10, 11, 12, 13, 14, 15, 10, 11, 12, 13, 14, 15]) c"

text \<open>The character that follows a backslash, for the two-character escapes.\<close>

definition unescape :: "char \<Rightarrow> char option" where
  "unescape e =
     (if e = CHR 0x22 then Some (CHR 0x22)
      else if e = CHR 0x5C then Some (CHR 0x5C)
      else if e = CHR ''/'' then Some (CHR ''/'')
      else if e = CHR ''b'' then Some (CHR 0x08)
      else if e = CHR ''f'' then Some (CHR 0x0C)
      else if e = CHR ''n'' then Some (CHR 0x0A)
      else if e = CHR ''r'' then Some (CHR 0x0D)
      else if e = CHR ''t'' then Some (CHR 0x09)
      else None)"

text \<open>
  The code unit of \<open>\uXXXX\<close>, from its four hexadecimal digits; a code unit beyond
  U+00FF has no \<open>char\<close> and is not read.
\<close>

definition unicodeEscape :: "char \<Rightarrow> char \<Rightarrow> char \<Rightarrow> char \<Rightarrow> char option" where
  "unicodeEscape a b c d =
     (case hexVal a of None \<Rightarrow> None | Some x3 \<Rightarrow>
      case hexVal b of None \<Rightarrow> None | Some x2 \<Rightarrow>
      case hexVal c of None \<Rightarrow> None | Some x1 \<Rightarrow>
      case hexVal d of None \<Rightarrow> None | Some x0 \<Rightarrow>
        if x3 = 0 \<and> x2 = 0 then Some (char_of (16 * x1 + x0)) else None)"

text \<open>
  The characters of a string literal after its opening quotation mark, up to the closing
  one, and the text that follows. A control character cannot stand unescaped.
\<close>

fun scanString :: "string \<Rightarrow> (string \<times> string) option" where
  "scanString [] = None"
| "scanString (c # cs) =
     (if c = CHR 0x22 then Some ([], cs)
      else if c = CHR 0x5C then
        (case cs of
           [] \<Rightarrow> None
         | e # cs1 \<Rightarrow>
             if e = CHR ''u'' then
               (case cs1 of
                  a # b # c # d # cs2 \<Rightarrow>
                    (case unicodeEscape a b c d of
                       None \<Rightarrow> None
                     | Some u \<Rightarrow>
                         (case scanString cs2 of None \<Rightarrow> None | Some (s, r) \<Rightarrow> Some (u # s, r)))
                | _ \<Rightarrow> None)
             else
               (case unescape e of
                  None \<Rightarrow> None
                | Some u \<Rightarrow>
                    (case scanString cs1 of None \<Rightarrow> None | Some (s, r) \<Rightarrow> Some (u # s, r))))
      else if (of_char c :: nat) < 32 then None
      else (case scanString cs of None \<Rightarrow> None | Some (s, r) \<Rightarrow> Some (c # s, r)))"

definition isDigit :: "char \<Rightarrow> bool" where
  "isDigit c = (digitVal c \<noteq> None)"

text \<open>
  A number: an optional minus sign and the digits of an integer, a single zero or digits
  that start with a non-zero digit. A fraction or an exponent is not read.
\<close>

definition scanNumber :: "string \<Rightarrow> (int \<times> string) option" where
  "scanNumber s =
     (let neg = (s \<noteq> [] \<and> hd s = CHR ''-'');
          s1 = (if neg then tl s else s);
          ds = takeWhile isDigit s1;
          r = dropWhile isDigit s1
      in if ds = [] \<or> (hd ds = CHR ''0'' \<and> length ds > 1) then None
         else if r \<noteq> [] \<and> (hd r = CHR ''.'' \<or> hd r = CHR ''e'' \<or> hd r = CHR ''E'') then None
         else (case digitsVal 0 ds of
                 None \<Rightarrow> None
               | Some v \<Rightarrow> Some (if neg then - v else v, r)))"

text \<open>
  The recursive descent over values, the elements of an array after its opening bracket
  and the members of an object after its opening brace. Every call that goes down takes
  one unit of \<open>fuel\<close>, and \<open>JSON_parse\<close> starts with the length of the text: a call
  reads at least one character before it goes down, so that more fuel would change
  nothing (lemma \<open>parseValue_fuel\<close> below).
\<close>

fun parseValue :: "nat \<Rightarrow> string \<Rightarrow> (json \<times> string) option"
  and parseElements :: "nat \<Rightarrow> string \<Rightarrow> (json list \<times> string) option"
  and parseMembers :: "nat \<Rightarrow> string \<Rightarrow> ((string \<times> json) list \<times> string) option"
where
  "parseValue 0 s = None"
| "parseValue (Suc fuel) s =
     (case skipWs s of
        [] \<Rightarrow> None
      | c # cs \<Rightarrow>
          if c = CHR ''['' then
            (case skipWs cs of
               [] \<Rightarrow> None
             | c1 # cs1 \<Rightarrow>
                 if c1 = CHR '']'' then Some (JArr [], cs1)
                 else (case parseElements fuel cs of
                         None \<Rightarrow> None
                       | Some (vs, r) \<Rightarrow> Some (JArr vs, r)))
          else if c = CHR ''{'' then
            (case skipWs cs of
               [] \<Rightarrow> None
             | c1 # cs1 \<Rightarrow>
                 if c1 = CHR ''}'' then Some (JObj [], cs1)
                 else (case parseMembers fuel cs of
                         None \<Rightarrow> None
                       | Some (ms, r) \<Rightarrow> Some (JObj ms, r)))
          else if c = CHR 0x22 then
            (case scanString cs of None \<Rightarrow> None | Some (str, r) \<Rightarrow> Some (JStr str, r))
          else if take 4 (c # cs) = ''null'' then Some (JNull, drop 4 (c # cs))
          else if take 4 (c # cs) = ''true'' then Some (JBool True, drop 4 (c # cs))
          else if take 5 (c # cs) = ''false'' then Some (JBool False, drop 5 (c # cs))
          else (case scanNumber (c # cs) of None \<Rightarrow> None | Some (i, r) \<Rightarrow> Some (JNum i, r)))"
| "parseElements 0 s = None"
| "parseElements (Suc fuel) s =
     (case parseValue fuel s of
        None \<Rightarrow> None
      | Some (v, r) \<Rightarrow>
          (case skipWs r of
             [] \<Rightarrow> None
           | c # cs \<Rightarrow>
               if c = CHR '']'' then Some ([v], cs)
               else if c = CHR '','' then
                 (case parseElements fuel cs of
                    None \<Rightarrow> None
                  | Some (vs, r1) \<Rightarrow> Some (v # vs, r1))
               else None))"
| "parseMembers 0 s = None"
| "parseMembers (Suc fuel) s =
     (case skipWs s of
        [] \<Rightarrow> None
      | q # cs \<Rightarrow>
          if q \<noteq> CHR 0x22 then None
          else (case scanString cs of
                  None \<Rightarrow> None
                | Some (k, r) \<Rightarrow>
                    (case skipWs r of
                       [] \<Rightarrow> None
                     | colon # r1 \<Rightarrow>
                         if colon \<noteq> CHR '':'' then None
                         else (case parseValue fuel r1 of
                                 None \<Rightarrow> None
                               | Some (v, r2) \<Rightarrow>
                                   (case skipWs r2 of
                                      [] \<Rightarrow> None
                                    | c # r3 \<Rightarrow>
                                        if c = CHR ''}'' then Some ([(k, v)], r3)
                                        else if c = CHR '','' then
                                          (case parseMembers fuel r3 of
                                             None \<Rightarrow> None
                                           | Some (ms, r4) \<Rightarrow> Some ((k, v) # ms, r4))
                                        else None)))))"

text \<open>\<open>JSON.parse\<close>: one value, with nothing but white space after it.\<close>

definition JSON_parse :: "string \<Rightarrow> error + json" where
  "JSON_parse s =
     (case parseValue (length s) s of
        None \<Rightarrow> Inl SyntaxError
      | Some (v, r) \<Rightarrow> if skipWs r = [] then Inr v else Inl SyntaxError)"


text \<open>The characters that follow a value inside an array or an object, or the end of the text.\<close>

definition endsValue :: "string \<Rightarrow> bool" where
  "endsValue rest =
     (rest = [] \<or> hd rest = CHR '','' \<or> hd rest = CHR '']'' \<or> hd rest = CHR ''}'')"


text \<open>The first character of a number.\<close>

definition startsNumber :: "char \<Rightarrow> bool" where
  "startsNumber c = (isDigit c \<or> c = CHR ''-'')"

subsection \<open>Cases as JSON\<close>

text \<open>
  The object that \<open>JSON.stringify\<close> sees in a case: its properties in the order of
  their creation (line 135: \<open>id\<close>, the properties of the form, \<open>createdAt\<close>), which the
  spread of line 181 keeps.
\<close>

definition jsonOfCase :: "char caseItem \<Rightarrow> json" where
  "jsonOfCase c =
     JObj [(''id'', JNum (id_field c)),
           (''caseNumber'', JStr (caseNumber c)),
           (''courtName'', JStr (courtName c)),
           (''caseType'', JStr (caseType c)),
           (''clientName'', JStr (clientName c)),
           (''opponentName'', JStr (opponentName c)),
           (''hearingDate'', JStr (hearingDate c)),
           (''caseStatus'', JStr (caseStatus c)),
           (''notes'', JStr (notes_field c)),
           (''createdAt'', JStr (createdAt c))]"

definition JSON_stringify :: "char caseItem list \<Rightarrow> string" where
  "JSON_stringify cs = stringifyValue (JArr (map jsonOfCase cs))"

text \<open>
  Reading a parsed value as the case array. \<open>getProp\<close> is the property of an object,
  the last member with the key. The component takes what \<open>JSON.parse\<close> returns as its
  array without a check; a value that is not an array of objects with the ten properties
  of a case, a number for \<open>id\<close> and strings for the others, has no counterpart in
  \<open>caseItem list\<close>, and \<open>casesOfJson\<close> is \<open>None\<close> on it. Further properties of an
  object are dropped.
\<close>

definition getProp :: "(string \<times> json) list \<Rightarrow> string \<Rightarrow> json option" where
  "getProp ms k = map_of (rev ms) k"

definition strProp :: "(string \<times> json) list \<Rightarrow> string \<Rightarrow> string option" where
  "strProp ms k = (case getProp ms k of Some (JStr s) \<Rightarrow> Some s | _ \<Rightarrow> None)"

definition numProp :: "(string \<times> json) list \<Rightarrow> string \<Rightarrow> int option" where
  "numProp ms k = (case getProp ms k of Some (JNum i) \<Rightarrow> Some i | _ \<Rightarrow> None)"

definition caseOfJson :: "json \<Rightarrow> char caseItem option" where
  "caseOfJson v =
     (case v of
        JObj ms \<Rightarrow>
          Option.bind (numProp ms ''id'') (\<lambda>i.
          Option.bind (strProp ms ''caseNumber'') (\<lambda>number.
          Option.bind (strProp ms ''courtName'') (\<lambda>court.
          Option.bind (strProp ms ''caseType'') (\<lambda>type.
          Option.bind (strProp ms ''clientName'') (\<lambda>client.
          Option.bind (strProp ms ''opponentName'') (\<lambda>opponent.
          Option.bind (strProp ms ''hearingDate'') (\<lambda>date.
          Option.bind (strProp ms ''caseStatus'') (\<lambda>status.
          Option.bind (strProp ms ''notes'') (\<lambda>notes.
          Option.bind (strProp ms ''createdAt'') (\<lambda>created.
            Some \<lparr>caseNumber = number, courtName = court, caseType = type,
                  clientName = client, opponentName = opponent, hearingDate = date,
                  caseStatus = status, notes_field = notes, id_field = i,
                  createdAt = created\<rparr>))))))))))
      | _ \<Rightarrow> None)"

definition casesOfJson :: "json \<Rightarrow> char caseItem list option" where
  "casesOfJson v = (case v of JArr vs \<Rightarrow> those (map caseOfJson vs) | _ \<Rightarrow> None)"

subsection \<open>Storage\<close>

text \<open>
  \<open>localStorage\<close>: the stored items, and the room the browser grants, counted in code
  units of keys and values. \<open>setItem\<close> throws when the items would not fit.
\<close>

record storage =
  items :: "(string \<times> string) list"
  quota :: nat

definition getItem :: "storage \<Rightarrow> string \<Rightarrow> string option" where
  "getItem st k = map_of (items st) k"

definition usage :: "(string \<times> string) list \<Rightarrow> nat" where
  "usage its = sum_list (map (\<lambda>(k, v). length k + length v) its)"

definition setItem :: "storage \<Rightarrow> string \<Rightarrow> string \<Rightarrow> error + storage" where
  "setItem st k v =
     (let its = (k, v) # filter (\<lambda>(k', v'). k' \<noteq> k) (items st)
      in if usage its > quota st then Inl QuotaExceededError else Inr (st\<lparr>items := its\<rparr>))"

text \<open>
  \<open>saveCasesToStorage\<close> (lines 101 to 107), with the case array it reads: the exception
  it caught and logged, if any, and the storage after the call.
\<close>

definition saveCasesToStorage ::
  "char caseItem list \<Rightarrow> storage \<Rightarrow> error option \<times> storage" where
  "saveCasesToStorage cs st =
     (case setItem st ''courtCases'' (JSON_stringify cs) of
        Inl e \<Rightarrow> (Some e, st)
      | Inr st' \<Rightarrow> (None, st'))"

text \<open>
  \<open>loadCasesFromStorage\<close> (lines 84 to 94): the case array after the call, \<open>prev\<close>
  being the array before it. Nothing is set when the key is absent, when the stored
  text is empty (both are falsy) and when \<open>JSON.parse\<close> throws. The result is \<open>None\<close>
  when the parsed value is not a case array.
\<close>

definition loadCasesFromStorage ::
  "storage \<Rightarrow> char caseItem list \<Rightarrow> char caseItem list option" where
  "loadCasesFromStorage st prev =
     (case getItem st ''courtCases'' of
        None \<Rightarrow> Some prev
      | Some storedCases \<Rightarrow>
          if storedCases = [] then Some prev
          else (case JSON_parse storedCases of
                  Inl e \<Rightarrow> Some prev
                | Inr parsedCases \<Rightarrow> casesOfJson parsedCases))"

subsection \<open>The filter in the words of the specification\<close>

text \<open>
  Case-insensitivity for text of the code units U+0000 to U+00FF, where it is a matter
  of single letters: the capital letters are A to Z and U+00C0 to U+00DE without the
  multiplication sign U+00D7, and the small letter of each lies 32 above it. Two
  strings are equal up to case when they have the same length and, position by
  position, the same letter in either case. \<open>t\<close> is a case-insensitive substring of
  \<open>s\<close> when some stretch of \<open>s\<close> equals \<open>t\<close> up to case.
\<close>

definition isLatin1 :: "16 word list \<Rightarrow> bool" where
  "isLatin1 s = list_all (\<lambda>u. u \<le> 0xFF) s"

definition capitalLetter :: "16 word \<Rightarrow> bool" where
  "capitalLetter u = ((0x41 \<le> u \<and> u \<le> 0x5A) \<or> (0xC0 \<le> u \<and> u \<le> 0xDE \<and> u \<noteq> 0xD7))"

definition sameLetter :: "16 word \<Rightarrow> 16 word \<Rightarrow> bool" where
  "sameLetter x y = (x = y \<or> (capitalLetter x \<and> y = x + 0x20) \<or> (capitalLetter y \<and> x = y + 0x20))"

definition equalIgnoringCase :: "16 word list \<Rightarrow> 16 word list \<Rightarrow> bool" where
  "equalIgnoringCase a b = list_all2 sameLetter a b"

definition caseInsensitiveSubstring :: "16 word list \<Rightarrow> 16 word list \<Rightarrow> bool" where
  "caseInsensitiveSubstring t s =
     (\<exists>pre mid post. s = pre @ mid @ post \<and> equalIgnoringCase mid t)"

definition matchesFilters ::
  "16 word list \<Rightarrow> 16 word list \<Rightarrow> 16 word list \<Rightarrow> 16 word caseItem \<Rightarrow> bool" where
  "matchesFilters term court type caseItem =
     ((term = [] \<or> caseInsensitiveSubstring term (caseNumber caseItem)
                \<or> caseInsensitiveSubstring term (clientName caseItem))
      \<and> (court = [] \<or> courtName caseItem = court)
      \<and> (type = [] \<or> caseType caseItem = type))"

text \<open>The small letter of a capital letter of U+0000 to U+00FF, as one code unit.\<close>

definition lowerUnit :: "16 word \<Rightarrow> 16 word" where
  "lowerUnit u = (if capitalLetter u then u + 0x20 else u)"

subsection \<open>Sample data\<close>

text \<open>Cases and states for the evaluated examples below.\<close>

definition sampleCase ::
  "int \<Rightarrow> string \<Rightarrow> string \<Rightarrow> string \<Rightarrow> string \<Rightarrow> char caseItem" where
  "sampleCase n number client date status =
     \<lparr>caseNumber = number, courtName = ''High Court'', caseType = ''Civil'',
      clientName = client, opponentName = [], hearingDate = date, caseStatus = status,
      notes_field = [], id_field = n, createdAt = ''2023-11-14T22:13:20.000Z''\<rparr>"

definition sampleApp :: "'u caseItem list \<Rightarrow> 'u formData \<Rightarrow> 'u list \<Rightarrow> 'u app" where
  "sampleApp cs fd term =
     \<lparr>cases = cs, formData = fd, searchTerm = term, filterCourt = [], filterCaseType = [],
      showForm = True\<rparr>"

definition filledForm :: "char formData" where
  "filledForm =
     \<lparr>caseNumber = ''CV-12'', courtName = ''High Court'', caseType = ''Civil'',
      clientName = ''Meera Nair'', opponentName = [], hearingDate = ''2024-02-01'',
      caseStatus = ''Pending'', notes_field = []\<rparr>"

text \<open>
  The same for the search: the UTF-16 code units of a text of U+0000 to U+00FF, a case
  with a given case number and client name, and a state with a case array and a search
  term and no other filter.
\<close>

definition codeUnits :: "string \<Rightarrow> 16 word list" where
  "codeUnits s = map (\<lambda>c. of_nat (of_char c)) s"

definition searchCase :: "int \<Rightarrow> string \<Rightarrow> 16 word list \<Rightarrow> 16 word caseItem" where
  "searchCase n number client =
     \<lparr>caseNumber = codeUnits number, courtName = codeUnits ''High Court'',
      caseType = codeUnits ''Civil'', clientName = client, opponentName = [],
      hearingDate = codeUnits ''2024-02-01'', caseStatus = codeUnits ''Pending'',
      notes_field = [], id_field = n, createdAt = codeUnits ''2023-11-14T22:13:20.000Z''\<rparr>"

definition searchState :: "16 word caseItem list \<Rightarrow> 16 word list \<Rightarrow> 16 word app" where
  "searchState cs term =
     \<lparr>cases = cs,
      formData = \<lparr>caseNumber = [], courtName = [], caseType = codeUnits ''Civil'',
                  clientName = [], opponentName = [], hearingDate = [],
                  caseStatus = codeUnits ''Pending'', notes_field = []\<rparr>,
      searchTerm = term, filterCourt = [], filterCaseType = [], showForm = False\<rparr>"

section \<open>Properties\<close>

subsection \<open>Mapping a callback that can throw\<close>

lemma mapE_Inr_D: "mapE f xs = Inr ys \<Longrightarrow> list_all2 (\<lambda>x y. f x = Inr y) xs ys"
  by (induction xs arbitrary: ys) (auto split: sum.splits)

lemma mapE_Inr_I: "list_all2 (\<lambda>x y. f x = Inr y) xs ys \<Longrightarrow> mapE f xs = Inr ys"
  by (induction xs ys rule: list_all2_induct) auto

lemma mapE_Inl: "mapE f xs = Inl e \<Longrightarrow> \<exists>x\<in>set xs. f x = Inl e"
  by (induction xs) (auto split: sum.splits)

lemma mapE_same: "(\<And>x. x \<in> set xs \<Longrightarrow> f x = Inr x) \<Longrightarrow> mapE f xs = Inr xs"
  by (induction xs) auto

subsection \<open>The callback of \<open>moveToNextHearing\<close>\<close>

lemma advanceCase_other: "id_field c \<noteq> caseId \<Longrightarrow> advanceCase tz caseId c = Inr c"
  by (simp add: advanceCase_def)

lemma advanceCase_Inr:
  assumes "advanceCase tz caseId c = Inr c'"
  shows "if id_field c = caseId
         then \<exists>h. c' = c\<lparr>hearingDate := h, caseStatus := ''Adjourned''\<rparr>
         else c' = c"
  using assms by (auto simp: advanceCase_def Let_def split: sum.splits if_splits)

lemma advanceCase_Inl:
  "advanceCase tz caseId c = Inl e \<Longrightarrow> e = RangeError \<and> id_field c = caseId"
  by (auto simp: advanceCase_def Let_def toISOString_def split: sum.splits if_splits option.splits)

subsection \<open>31 January 2024, one month on\<close>

text \<open>
  \<open>new Date("2024-01-31")\<close> is midnight UTC. East of Greenwich that instant is on
  31 January local time, west of it on 30 January; \<open>setMonth\<close> works on the local
  fields, and \<open>toISOString\<close> goes back to UTC.
\<close>

lemma parse_jan31: "Date_parse ''2024-01-31'' = Some 1706659200000"
  by code_simp

lemma TimeWithinDay_Day: "TimeWithinDay t = t - Day t * msPerDay"
  unfolding TimeWithinDay_def Day_def by (simp add: minus_div_mult_eq_mod)

lemma day_jan31_east:
  "0 \<le> tz \<Longrightarrow> tz < 1440 \<Longrightarrow> Day (LocalTime tz 1706659200000) = 19753"
  unfolding Day_def LocalTime_def msPerDay_def msPerMinute_def by linarith

lemma time_jan31_east:
  "0 \<le> tz \<Longrightarrow> tz < 1440 \<Longrightarrow> TimeWithinDay (LocalTime tz 1706659200000) = tz * 60000"
  by (simp add: TimeWithinDay_Day day_jan31_east)
     (simp add: LocalTime_def msPerDay_def msPerMinute_def)

lemma day_jan31_west:
  "- 1440 < tz \<Longrightarrow> tz < 0 \<Longrightarrow> Day (LocalTime tz 1706659200000) = 19752"
  unfolding Day_def LocalTime_def msPerDay_def msPerMinute_def by linarith

lemma time_jan31_west:
  "- 1440 < tz \<Longrightarrow> tz < 0 \<Longrightarrow>
     TimeWithinDay (LocalTime tz 1706659200000) = 86400000 + tz * 60000"
  by (simp add: TimeWithinDay_Day day_jan31_west)
     (simp add: LocalTime_def msPerDay_def msPerMinute_def)

lemma jan_days:
  "MonthFromDay 19753 = 0" "DateFromDay 19753 = 31" "YearFromDay 19753 = 2024"
  "MonthFromDay 19752 = 0" "DateFromDay 19752 = 30" "YearFromDay 19752 = 2024"
  "MakeDay 2024 1 31 = 19784" "MakeDay 2024 1 30 = 19783"
  by code_simp+

lemma iso_mar2: "toISOString (Some 1709337600000) = Inr ''2024-03-02T00:00:00.000Z''"
  by code_simp

lemma advance_jan31:
  assumes tz: "- 1440 < tz" "tz < 1440"
    and c: "hearingDate c = ''2024-01-31''" "id_field c = caseId"
  shows "advanceCase tz caseId c =
           Inr (c\<lparr>hearingDate := ''2024-03-02'', caseStatus := ''Adjourned''\<rparr>)"
proof -
  have next_date: "setMonth tz (Some 1706659200000)
      (case getMonth tz (Some 1706659200000) of None \<Rightarrow> None | Some m \<Rightarrow> Some (m + 1))
      = Some 1709337600000"
  proof (cases "0 \<le> tz")
    case True
    with tz show ?thesis
      by (simp add: setMonth_def getMonth_def MonthFromTime_def YearFromTime_def
          DateFromTime_def day_jan31_east time_jan31_east jan_days MakeDate_def UTC_def
          TimeClip_def msPerDay_def msPerMinute_def)
  next
    case False
    with tz show ?thesis
      by (simp add: setMonth_def getMonth_def MonthFromTime_def YearFromTime_def
          DateFromTime_def day_jan31_west time_jan31_west jan_days MakeDate_def UTC_def
          TimeClip_def msPerDay_def msPerMinute_def)
  qed
  have "splitT0 ''2024-03-02T00:00:00.000Z'' = ''2024-03-02''"
    by (simp add: splitT0_def)
  with c next_date show ?thesis
    by (simp add: advanceCase_def parse_jan31 iso_mar2)
qed

text \<open>
  C1. In a store whose ids are distinct, moving the hearing of a case dated
  \<open>2024-01-31\<close> succeeds in every time zone (any offset of less than a day), and the
  case then carries the hearing date \<open>2024-03-02\<close>, one of the four dates the
  specification allows, and the status \<open>Adjourned\<close>, whatever its status was. The rule
  is that of \<open>setMonth\<close>, the same in every zone: the days past the end of February are
  counted on into March.
\<close>

theorem moveToNextHearing_jan31:
  assumes tz: "- 1440 < tz" "tz < 1440"
    and i: "i < length prev"
    and date: "hearingDate (prev ! i) = ''2024-01-31''"
    and ids: "distinct (map id_field prev)"
  shows "\<exists>cases'. moveToNextHearing tz (id_field (prev ! i)) prev = Inr cases' \<and>
           hearingDate (cases' ! i) = ''2024-03-02'' \<and>
           hearingDate (cases' ! i)
             \<in> {''2024-02-28'', ''2024-02-29'', ''2024-03-02'', ''2024-03-03''} \<and>
           caseStatus (cases' ! i) = ''Adjourned''"
proof -
  let ?c' = "(prev ! i)\<lparr>hearingDate := ''2024-03-02'', caseStatus := ''Adjourned''\<rparr>"
  have "advanceCase tz (id_field (prev ! i)) (prev ! j) = Inr (prev[i := ?c'] ! j)"
    if j: "j < length prev" for j
  proof (cases "j = i")
    case True
    with i tz date show ?thesis by (simp add: advance_jan31)
  next
    case False
    with i j ids have "id_field (prev ! j) \<noteq> id_field (prev ! i)"
      by (metis length_map nth_eq_iff_index_eq nth_map)
    with False show ?thesis by (simp add: advanceCase_other)
  qed
  then have "list_all2 (\<lambda>x y. advanceCase tz (id_field (prev ! i)) x = Inr y)
               prev (prev[i := ?c'])"
    by (simp add: list_all2_conv_all_nth)
  then have "moveToNextHearing tz (id_field (prev ! i)) prev = Inr (prev[i := ?c'])"
    unfolding moveToNextHearing_def by (rule mapE_Inr_I)
  with i show ?thesis by simp
qed

theorem moveToNextHearing_jan31_witness:
  "\<exists>cases'.
     moveToNextHearing 330 7
       [sampleCase 7 ''CV-AB-2024'' ''Abdul Rahman'' ''2024-01-31'' ''Closed'',
        sampleCase 8 ''CR-77'' ''Meera Nair'' ''2024-02-01'' ''Pending''] = Inr cases' \<and>
     hearingDate (cases' ! 0) = ''2024-03-02'' \<and>
     caseStatus (cases' ! 0) = ''Adjourned''"
  using moveToNextHearing_jan31 [of 330 0
      "[sampleCase 7 ''CV-AB-2024'' ''Abdul Rahman'' ''2024-01-31'' ''Closed'',
        sampleCase 8 ''CR-77'' ''Meera Nair'' ''2024-02-01'' ''Pending'']"]
  by (auto simp: sampleCase_def)

subsection \<open>An id that no case has\<close>

text \<open>
  C8. When no case of the array has the id, \<open>moveToNextHearing\<close> returns the array as
  it was (the same cases in the same order) and throws nothing.
\<close>

theorem moveToNextHearing_unknown_id:
  assumes "\<forall>c \<in> set prev. id_field c \<noteq> caseId"
  shows "moveToNextHearing tz caseId prev = Inr prev"
  unfolding moveToNextHearing_def using assms
  by (intro mapE_same) (simp add: advanceCase_other)

theorem moveToNextHearing_unknown_id_witness:
  "moveToNextHearing 330 9
     [sampleCase 7 ''CV-AB-2024'' ''Abdul Rahman'' ''2024-01-31'' ''Closed'',
      sampleCase 8 ''CR-77'' ''Meera Nair'' ''not a date'' ''Pending'']
   = Inr [sampleCase 7 ''CV-AB-2024'' ''Abdul Rahman'' ''2024-01-31'' ''Closed'',
          sampleCase 8 ''CR-77'' ''Meera Nair'' ''not a date'' ''Pending'']"
  using moveToNextHearing_unknown_id [of
      "[sampleCase 7 ''CV-AB-2024'' ''Abdul Rahman'' ''2024-01-31'' ''Closed'',
        sampleCase 8 ''CR-77'' ''Meera Nair'' ''not a date'' ''Pending'']" 9 330]
  by (simp add: sampleCase_def)

subsection \<open>What \<open>moveToNextHearing\<close> leaves alone\<close>

text \<open>
  C10. \<open>moveToNextHearing\<close> either returns an array of the same length in which every
  case with another id is the case it was, at the place it was, and every case with the
  id differs from the case it was in \<open>hearingDate\<close> and \<open>caseStatus\<close> at most (its id,
  case number, court, type, client, opponent, notes and creation stamp are those it
  had); or a case with the id has a hearing date that cannot be advanced, the updater
  throws a RangeError and no array is set.
\<close>

theorem moveToNextHearing_frame:
  "(\<exists>cases'. moveToNextHearing tz caseId prev = Inr cases' \<and> length cases' = length prev \<and>
      (\<forall>i < length prev. cases' ! i =
         (if id_field (prev ! i) = caseId
          then (prev ! i)\<lparr>hearingDate := hearingDate (cases' ! i),
                          caseStatus := caseStatus (cases' ! i)\<rparr>
          else prev ! i)))
   \<or> (moveToNextHearing tz caseId prev = Inl RangeError \<and>
       (\<exists>c \<in> set prev. id_field c = caseId \<and> advanceCase tz caseId c = Inl RangeError))"
proof (cases "moveToNextHearing tz caseId prev")
  case (Inl e)
  then obtain c where c: "c \<in> set prev" "advanceCase tz caseId c = Inl e"
    unfolding moveToNextHearing_def by (blast dest: mapE_Inl)
  with advanceCase_Inl have "e = RangeError" "id_field c = caseId" by blast+
  with Inl c show ?thesis by blast
next
  case (Inr cases')
  then have all2: "list_all2 (\<lambda>x y. advanceCase tz caseId x = Inr y) prev cases'"
    by (simp add: moveToNextHearing_def mapE_Inr_D)
  then have len: "length cases' = length prev"
    by (simp add: list_all2_lengthD)
  have "cases' ! i =
         (if id_field (prev ! i) = caseId
          then (prev ! i)\<lparr>hearingDate := hearingDate (cases' ! i),
                          caseStatus := caseStatus (cases' ! i)\<rparr>
          else prev ! i)" if "i < length prev" for i
  proof -
    have adv: "advanceCase tz caseId (prev ! i) = Inr (cases' ! i)"
      using list_all2_nthD[OF all2 that] .
    show ?thesis
    proof (cases "id_field (prev ! i) = caseId")
      case True
      with advanceCase_Inr[OF adv] obtain h
        where "cases' ! i = (prev ! i)\<lparr>hearingDate := h, caseStatus := ''Adjourned''\<rparr>"
        by auto
      with True show ?thesis by simp
    next
      case False
      with advanceCase_Inr[OF adv] show ?thesis by simp
    qed
  qed
  with Inr len show ?thesis by blast
qed

theorem moveToNextHearing_frame_witness:
  "\<exists>cases'.
     moveToNextHearing 330 7
       [sampleCase 7 ''CV-AB-2024'' ''Abdul Rahman'' ''2024-01-31'' ''Closed'',
        sampleCase 8 ''CR-77'' ''Meera Nair'' ''2024-02-01'' ''Pending''] = Inr cases' \<and>
     length cases' = 2 \<and>
     cases' ! 0 = (sampleCase 7 ''CV-AB-2024'' ''Abdul Rahman'' ''2024-01-31'' ''Closed'')
                    \<lparr>hearingDate := hearingDate (cases' ! 0),
                     caseStatus := caseStatus (cases' ! 0)\<rparr> \<and>
     cases' ! 1 = sampleCase 8 ''CR-77'' ''Meera Nair'' ''2024-02-01'' ''Pending''"
proof -
  let ?a = "sampleCase 7 ''CV-AB-2024'' ''Abdul Rahman'' ''2024-01-31'' ''Closed''"
  let ?b = "sampleCase 8 ''CR-77'' ''Meera Nair'' ''2024-02-01'' ''Pending''"
  have ids: "id_field ?a = 7" "id_field ?b = 8"
    by (simp_all add: sampleCase_def)
  have "advanceCase 330 7 ?a \<noteq> Inl RangeError"
    by (simp add: advance_jan31 sampleCase_def)
  moreover have "advanceCase 330 7 ?b \<noteq> Inl RangeError"
    by (simp add: advanceCase_other ids)
  ultimately obtain cases' where r: "moveToNextHearing 330 7 [?a, ?b] = Inr cases'"
    and len: "length cases' = length [?a, ?b]"
    and frame: "\<forall>i < length [?a, ?b]. cases' ! i =
         (if id_field ([?a, ?b] ! i) = 7
          then ([?a, ?b] ! i)\<lparr>hearingDate := hearingDate (cases' ! i),
                              caseStatus := caseStatus (cases' ! i)\<rparr>
          else [?a, ?b] ! i)"
    using moveToNextHearing_frame [of 330 7 "[?a, ?b]"] by auto
  from frame have "cases' ! 0 = ?a\<lparr>hearingDate := hearingDate (cases' ! 0),
                                    caseStatus := caseStatus (cases' ! 0)\<rparr>"
    using ids by (auto dest: spec [of _ 0])
  moreover from frame have "cases' ! 1 = ?b"
    using ids by (auto dest: spec [of _ 1])
  ultimately show ?thesis using r len by simp
qed

subsection \<open>Deleting\<close>

lemma count_list_filter:
  "count_list (filter P xs) x = (if P x then count_list xs x else 0)"
  by (induction xs) auto

text \<open>
  C9. Once the user has confirmed, the array after \<open>deleteCase\<close> is the array before
  it with cases left out and nothing reordered; no case with the id is left, and every
  case with another id, with all its fields, is there as many times as before. When the
  user declines, the array stays as it is.
\<close>

theorem deleteCase_removes_exactly:
  "subseq (deleteCase True caseId prev) prev \<and>
   (\<forall>c. count_list (deleteCase True caseId prev) c =
          (if id_field c = caseId then 0 else count_list prev c)) \<and>
   deleteCase False caseId prev = prev"
  by (simp add: deleteCase_def count_list_filter)

subsection \<open>Adding\<close>

text \<open>
  C4. When one of case number, court name, client name and hearing date is empty,
  \<open>handleSubmit\<close> alerts that the required fields are to be filled in and leaves the
  whole state, the case array in it, as it was.
\<close>

theorem handleSubmit_validation:
  assumes "caseNumber (formData st) = [] \<or> courtName (formData st) = [] \<or>
           clientName (formData st) = [] \<or> hearingDate (formData st) = []"
  shows "handleSubmit t_id t_created st =
           (''Please fill in all required fields (Case Number, Court Name, Client Name, Hearing Date)'',
            st)"
  using assms by (simp add: handleSubmit_def Let_def)

theorem handleSubmit_validation_witness:
  "snd (handleSubmit 1700000000000 1700000000001
          (sampleApp [sampleCase 7 ''CV-AB-2024'' ''Abdul Rahman'' ''2024-01-31'' ''Closed'']
             (filledForm\<lparr>hearingDate := []\<rparr>) []))
   = sampleApp [sampleCase 7 ''CV-AB-2024'' ''Abdul Rahman'' ''2024-01-31'' ''Closed'']
       (filledForm\<lparr>hearingDate := []\<rparr>) []"
  using handleSubmit_validation [of
      "sampleApp [sampleCase 7 ''CV-AB-2024'' ''Abdul Rahman'' ''2024-01-31'' ''Closed'']
         (filledForm\<lparr>hearingDate := []\<rparr>) []" 1700000000000 1700000000001]
  by (simp add: sampleApp_def)

text \<open>
  C2. The comment of line 134 announces a case object with a unique id. The id is the
  reading of \<open>Date.now()\<close> (line 136) and is compared with nothing: when a case of
  the array already carries that reading as its id, the form is valid, the case is
  added, and two cases of the array have one id.
\<close>

theorem handleSubmit_id_collision:
  "caseNumber filledForm \<noteq> [] \<and> courtName filledForm \<noteq> [] \<and>
   clientName filledForm \<noteq> [] \<and> hearingDate filledForm \<noteq> [] \<and>
   map id_field
     (cases (snd (handleSubmit 1700000000000 1700000000000
        (sampleApp [sampleCase 1700000000000 ''CV-AB-2024'' ''Abdul Rahman'' ''2024-01-31'' ''Closed'']
           filledForm []))))
   = [1700000000000, 1700000000000]"
  by (simp add: handleSubmit_def sampleApp_def sampleCase_def filledForm_def newCase_def)

text \<open>
  What every valid call does: one case is appended, whose id is the reading of
  \<open>Date.now()\<close>. The ids of the array stay distinct exactly when they were distinct
  and no case of the array carries that reading.
\<close>

lemma handleSubmit_appends:
  assumes "caseNumber (formData st) \<noteq> []" "courtName (formData st) \<noteq> []"
    "clientName (formData st) \<noteq> []" "hearingDate (formData st) \<noteq> []"
  shows "handleSubmit t_id t_created st =
           (''Case added successfully!'',
            st\<lparr>cases := cases st @ [newCase t_id t_created (formData st)],
               formData := emptyForm,
               showForm := False\<rparr>)"
  using assms by (simp add: handleSubmit_def Let_def)

lemma newCase_id: "id_field (newCase t_id t_created fd) = t_id"
  by (simp add: newCase_def)

lemma handleSubmit_distinct_iff:
  assumes "caseNumber (formData st) \<noteq> []" "courtName (formData st) \<noteq> []"
    "clientName (formData st) \<noteq> []" "hearingDate (formData st) \<noteq> []"
  shows "distinct (map id_field (cases (snd (handleSubmit t_id t_created st)))) \<longleftrightarrow>
           distinct (map id_field (cases st)) \<and> t_id \<notin> id_field ` set (cases st)"
  by (auto simp: handleSubmit_appends [OF assms] newCase_id)

subsection \<open>Searching and filtering\<close>

text \<open>
  Lower-casing at work on Greek capitals: the sigma at the end of a word becomes the
  final sigma U+03C2, the sigma inside a word becomes U+03C3; and the dotted capital I
  becomes two code units.
\<close>

lemmas lower_defs =
  toLowerCase_def CodePointsToString_def UTF16EncodeCodePoint_def isLeadingSurrogate_def
  Lowercase_Mapping_def Final_Sigma_def Cased_def

lemma lower_term_capital:
  "toLowerCase [0x39F, 0x394, 0x39F, 0x3A3] = [0x3BF, 0x3B4, 0x3BF, 0x3C2]"
  by (simp add: lower_defs)

lemma lower_term_small:
  "toLowerCase [0x3BF, 0x3B4, 0x3BF, 0x3C3] = [0x3BF, 0x3B4, 0x3BF, 0x3C3]"
  by (simp add: lower_defs)

lemma lower_name:
  "toLowerCase [0x39F, 0x394, 0x39F, 0x3A3, 0x391] = [0x3BF, 0x3B4, 0x3BF, 0x3C3, 0x3B1]"
  by (simp add: lower_defs)

lemma lower_number: "toLowerCase (codeUnits ''CV-12'') = codeUnits ''cv-12''"
  by (simp add: codeUnits_def lower_defs)

lemma lower_dotted_I: "toLowerCase [0x130] = [0x69, 0x307]"
  by (simp add: lower_defs)

text \<open>
  C6. The claim takes the search term for a case-insensitive substring of the case
  number or of the client name. The code lower-cases the field and the term each on its
  own (lines 243 to 244) and looks for the one in the other, and the lower case of a
  capital sigma depends on where it stands. The client name is the five capitals
  U+039F U+0394 U+039F U+03A3 U+0391 (omicron, delta, omicron, sigma, alpha). The term
  of its first four letters as they are written finds nothing: the sigma ends the term
  and becomes U+03C2, the sigma of the name becomes U+03C3. The same four letters typed
  small, U+03BF U+03B4 U+03BF U+03C3, find the case.
\<close>

theorem getFilteredCases_final_sigma:
  "clientName (searchCase 7 ''CV-12'' [0x39F, 0x394, 0x39F, 0x3A3, 0x391])
     = [0x39F, 0x394, 0x39F, 0x3A3] @ [0x391] \<and>
   getFilteredCases
     (searchState [searchCase 7 ''CV-12'' [0x39F, 0x394, 0x39F, 0x3A3, 0x391]]
        [0x39F, 0x394, 0x39F, 0x3A3]) = [] \<and>
   getFilteredCases
     (searchState [searchCase 7 ''CV-12'' [0x39F, 0x394, 0x39F, 0x3A3, 0x391]]
        [0x3BF, 0x3B4, 0x3BF, 0x3C3])
     = [searchCase 7 ''CV-12'' [0x39F, 0x394, 0x39F, 0x3A3, 0x391]]"
  by (simp add: getFilteredCases_def searchState_def searchCase_def lower_term_capital
      lower_term_small lower_name lower_number)
     (simp add: codeUnits_def)

text \<open>
  On text of the code units U+0000 to U+00FF no sigma and no code point with a longer
  lower case occurs: \<open>toLowerCase\<close> maps code unit by code unit there, and the search
  is the case-insensitive substring match of the specification.
\<close>

lemma latin1_no_surrogate: "u \<le> (0xFF :: 16 word) \<Longrightarrow> \<not> isLeadingSurrogate u"
  by (simp add: isLeadingSurrogate_def word_le_nat_alt)

lemma StringToCodePoints_latin1: "isLatin1 s \<Longrightarrow> StringToCodePoints s = map unat s"
  by (induction s rule: StringToCodePoints.induct) (simp_all add: isLatin1_def latin1_no_surrogate)

lemma toLowercase_no_sigma:
  "\<forall>c \<in> set cps. c \<noteq> 0x3A3 \<Longrightarrow> toLowercase preceding cps = concat (map Lowercase_Mapping cps)"
  by (induction cps arbitrary: preceding) simp_all

lemma Lowercase_Mapping_latin1:
  assumes "u \<le> (0xFF :: 16 word)"
  shows "map of_nat (Lowercase_Mapping (unat u)) = [lowerUnit u]"
    and "\<forall>c \<in> set (Lowercase_Mapping (unat u)). c \<le> 0xFFFF"
  using assms
  by (auto simp: Lowercase_Mapping_def lowerUnit_def capitalLetter_def word_le_nat_alt
      word_unat_eq_iff)


lemma CodePointsToString_append:
  "CodePointsToString (a @ b) = CodePointsToString a @ CodePointsToString b"
  by (simp add: CodePointsToString_def)

lemma CodePointsToString_bmp:
  "\<forall>c \<in> set cps. c \<le> 0xFFFF \<Longrightarrow> CodePointsToString cps = map of_nat cps"
  by (induction cps) (simp_all add: CodePointsToString_def UTF16EncodeCodePoint_def)

lemma lower_latin1_units:
  "isLatin1 s \<Longrightarrow>
   CodePointsToString (concat (map Lowercase_Mapping (map unat s))) = map lowerUnit s"
proof (induction s)
  case Nil
  then show ?case by (simp add: CodePointsToString_def)
next
  case (Cons u s)
  then have u: "u \<le> 0xFF" and s: "isLatin1 s" by (simp_all add: isLatin1_def)
  have "CodePointsToString (Lowercase_Mapping (unat u)) = [lowerUnit u]"
    using Lowercase_Mapping_latin1 [OF u] by (simp add: CodePointsToString_bmp)
  with Cons.IH [OF s] show ?case
    by (simp add: CodePointsToString_append)
qed

lemma latin1_no_sigma: "isLatin1 s \<Longrightarrow> \<forall>c \<in> set (map unat s). c \<noteq> 0x3A3"
  by (auto simp: isLatin1_def list_all_iff word_le_nat_alt)

lemma toLowerCase_latin1: "isLatin1 s \<Longrightarrow> toLowerCase s = map lowerUnit s"
  by (simp only: toLowerCase_def StringToCodePoints_latin1
        toLowercase_no_sigma [OF latin1_no_sigma] lower_latin1_units)

lemma sameLetter_iff:
  assumes "x \<le> 0xFF" "y \<le> 0xFF"
  shows "sameLetter x y \<longleftrightarrow> lowerUnit x = lowerUnit y"
  using assms
  by (auto simp: sameLetter_def lowerUnit_def capitalLetter_def word_le_nat_alt
      word_unat_eq_iff unat_word_ariths)

lemma startsWith_iff: "startsWith s t \<longleftrightarrow> (\<exists>post. s = t @ post)"
  by (induction s t rule: startsWith.induct) auto

lemma includes_str_iff: "includes_str s t \<longleftrightarrow> (\<exists>pre post. s = pre @ t @ post)"
proof (induction s)
  case Nil
  then show ?case by simp
next
  case (Cons c cs)
  have "(\<exists>pre post. c # cs = pre @ t @ post) \<longleftrightarrow>
        (\<exists>post. c # cs = t @ post) \<or> (\<exists>pre post. cs = pre @ t @ post)"
    (is "?L \<longleftrightarrow> ?A \<or> ?B")
  proof
    assume ?L
    then obtain pre post where eq: "c # cs = pre @ t @ post" by blast
    show "?A \<or> ?B"
    proof (cases pre)
      case Nil
      with eq show ?thesis by auto
    next
      case (Cons p ps)
      with eq have "cs = ps @ t @ post" by simp
      then show ?thesis by blast
    qed
  next
    assume "?A \<or> ?B"
    then show ?L
    proof
      assume ?A
      then obtain post where "c # cs = [] @ t @ post" by auto
      then show ?L by blast
    next
      assume ?B
      then obtain pre post where "c # cs = (c # pre) @ t @ post" by auto
      then show ?L by blast
    qed
  qed
  with Cons show ?case by (simp add: startsWith_iff)
qed

lemma isLatin1_append: "isLatin1 (a @ b) \<longleftrightarrow> isLatin1 a \<and> isLatin1 b"
  by (simp add: isLatin1_def)

lemma equalIgnoringCase_iff:
  "isLatin1 a \<Longrightarrow> isLatin1 b \<Longrightarrow>
   equalIgnoringCase a b \<longleftrightarrow> map lowerUnit a = map lowerUnit b"
proof (induction a arbitrary: b)
  case Nil
  then show ?case by (simp add: equalIgnoringCase_def)
next
  case (Cons x a)
  show ?case
  proof (cases b)
    case Nil
    then show ?thesis by (simp add: equalIgnoringCase_def)
  next
    case (Cons y b')
    with Cons.prems have "x \<le> 0xFF" "y \<le> 0xFF" "isLatin1 a" "isLatin1 b'"
      by (simp_all add: isLatin1_def)
    with Cons.IH [of b'] Cons show ?thesis
      by (simp add: equalIgnoringCase_def sameLetter_iff)
  qed
qed

lemma includes_lower_iff:
  assumes s: "isLatin1 s" and t: "isLatin1 t"
  shows "includes_str (toLowerCase s) (toLowerCase t) \<longleftrightarrow> caseInsensitiveSubstring t s"
proof
  assume "includes_str (toLowerCase s) (toLowerCase t)"
  then obtain pre' post' where "map lowerUnit s = pre' @ map lowerUnit t @ post'"
    using s t by (auto simp: includes_str_iff toLowerCase_latin1)
  then have "\<exists>us vs. s = us @ vs \<and> pre' = map lowerUnit us \<and>
                 map lowerUnit t @ post' = map lowerUnit vs"
    by (simp only: map_eq_append_conv)
  then obtain pre rest where split: "s = pre @ rest"
    and "map lowerUnit rest = map lowerUnit t @ post'"
    by metis
  then have "\<exists>us vs. rest = us @ vs \<and> map lowerUnit t = map lowerUnit us \<and>
                 post' = map lowerUnit vs"
    by (simp only: map_eq_append_conv)
  then obtain mid post where rest: "rest = mid @ post"
    and eq: "map lowerUnit mid = map lowerUnit t"
    by metis
  from s split rest have "isLatin1 mid" by (simp add: isLatin1_append)
  with eq t have "equalIgnoringCase mid t" by (simp add: equalIgnoringCase_iff)
  with split rest show "caseInsensitiveSubstring t s"
    unfolding caseInsensitiveSubstring_def by blast
next
  assume "caseInsensitiveSubstring t s"
  then obtain pre mid post where split: "s = pre @ mid @ post"
    and eq: "equalIgnoringCase mid t"
    unfolding caseInsensitiveSubstring_def by blast
  from s split have "isLatin1 mid" by (simp add: isLatin1_append)
  with eq t have "map lowerUnit mid = map lowerUnit t" by (simp add: equalIgnoringCase_iff)
  with split have "map lowerUnit s = map lowerUnit pre @ map lowerUnit t @ map lowerUnit post"
    by simp
  with s t show "includes_str (toLowerCase s) (toLowerCase t)"
    unfolding includes_str_iff by (auto simp: toLowerCase_latin1)
qed

lemma getFilteredCases_latin1:
  assumes "isLatin1 (searchTerm st)"
    and "\<forall>c \<in> set (cases st). isLatin1 (caseNumber c) \<and> isLatin1 (clientName c)"
  shows "getFilteredCases st =
           filter (matchesFilters (searchTerm st) (filterCourt st) (filterCaseType st)) (cases st)"
  unfolding getFilteredCases_def
proof (rule filter_cong [OF refl])
  fix c
  assume "c \<in> set (cases st)"
  with assms show "(let matchesSearch = (searchTerm st = [] \<or>
               includes_str (toLowerCase (caseNumber c)) (toLowerCase (searchTerm st)) \<or>
               includes_str (toLowerCase (clientName c)) (toLowerCase (searchTerm st)));
             matchesCourt = (filterCourt st = [] \<or> courtName c = filterCourt st);
             matchesCaseType = (filterCaseType st = [] \<or> caseType c = filterCaseType st)
         in matchesSearch \<and> matchesCourt \<and> matchesCaseType)
        = matchesFilters (searchTerm st) (filterCourt st) (filterCaseType st) c"
    by (simp add: matchesFilters_def Let_def includes_lower_iff)
qed

text \<open>
  The example of the specification: the term \<open>ab\<close> finds the case number
  \<open>CV-AB-2024\<close> and the client \<open>Abdul Rahman\<close> and drops the case that has neither.
\<close>

lemma isLatin1_codeUnits: "isLatin1 (codeUnits s)"
proof -
  have "unat (of_nat (of_char c) :: 16 word) \<le> 0xFF" for c
  proof -
    have "(of_char c :: nat) mod 256 < 256" by simp
    then have lt: "(of_char c :: nat) < 256" by (simp only: of_char_mod_256)
    have "unat (of_nat (of_char c) :: 16 word) = of_char c mod 65536"
      by (simp add: unat_of_nat)
    also have "\<dots> = of_char c" by (rule mod_less) (use lt in linarith)
    finally show ?thesis using lt by linarith
  qed
  then show ?thesis
    by (simp add: isLatin1_def codeUnits_def list_all_iff word_le_nat_alt)
qed

lemma getFilteredCases_latin1_example:
  "getFilteredCases
     (searchState
        [searchCase 7 ''CV-AB-2024'' (codeUnits ''Meera Nair''),
         searchCase 8 ''CR-77'' (codeUnits ''Abdul Rahman''),
         searchCase 9 ''CR-78'' (codeUnits ''Meera Nair'')]
        (codeUnits ''ab''))
   = [searchCase 7 ''CV-AB-2024'' (codeUnits ''Meera Nair''),
      searchCase 8 ''CR-77'' (codeUnits ''Abdul Rahman'')]"
  by (simp add: getFilteredCases_def searchState_def searchCase_def toLowerCase_latin1
      isLatin1_codeUnits)
     (simp add: codeUnits_def lowerUnit_def capitalLetter_def)

text \<open>With no search term and no filter every case is shown.\<close>

lemma getFilteredCases_no_filter:
  assumes "searchTerm st = []" "filterCourt st = []" "filterCaseType st = []"
  shows "getFilteredCases st = cases st"
  using assms by (simp add: getFilteredCases_def)

subsection \<open>Upcoming hearings: the sort\<close>

text \<open>
  On cases that passed the filter the comparator is the difference of two time values,
  and the insertion sort is the stable sort by that key.
\<close>

lemma insertBy_insort:
  assumes "\<forall>y \<in> set ys. cmp x y = Some (k x - k y)"
  shows "insertBy cmp x ys = insort_key k x ys"
  using assms by (induction ys) (auto simp: sortCompare_def)

lemma sortBy_sort_key:
  assumes "\<forall>x \<in> set xs. \<forall>y \<in> set xs. cmp x y = Some (k x - k y)"
  shows "sortBy cmp xs = sort_key k xs"
  using assms
proof (induction xs)
  case Nil
  then show ?case by (simp add: sortBy_def)
next
  case (Cons x xs)
  then have IH: "sortBy cmp xs = sort_key k xs" by simp
  have "\<forall>y \<in> set (sort_key k xs). cmp x y = Some (k x - k y)"
    using Cons.prems by simp
  then have "insertBy cmp x (sort_key k xs) = insort_key k x (sort_key k xs)"
    by (rule insertBy_insort)
  with IH show ?case by (simp add: sortBy_def)
qed

text \<open>A case passes the filter only with a hearing date that parses.\<close>

lemma isUpcoming_parsed: "isUpcoming tz now c \<Longrightarrow> \<exists>t. Date_parse (hearingDate c) = Some t"
  by (auto simp: isUpcoming_def Let_def geDate_def setHours0_def split: option.splits)

lemma byHearingDate_parsed:
  assumes "\<exists>t. Date_parse (hearingDate a) = Some t" "\<exists>t. Date_parse (hearingDate b) = Some t"
  shows "byHearingDate a b = Some (hearingTime a - hearingTime b)"
  using assms by (auto simp: byHearingDate_def subDate_def hearingTime_def)

lemma getUpcomingHearings_sort_key:
  "getUpcomingHearings tz now st = sort_key hearingTime (filter (isUpcoming tz now) (cases st))"
  unfolding getUpcomingHearings_def
  by (rule sortBy_sort_key) (auto intro!: byHearingDate_parsed isUpcoming_parsed)

lemma getUpcomingHearings_set:
  "set (getUpcomingHearings tz now st) = {c \<in> set (cases st). isUpcoming tz now c}"
  by (simp add: getUpcomingHearings_sort_key)

text \<open>
  Whatever the zone and the clock: the list is in ascending order of hearing date, and
  the cases of one date stand in the order they have in the array.
\<close>

lemma getUpcomingHearings_sorted:
  "sorted_wrt (\<lambda>a b. \<exists>x y. Date_parse (hearingDate a) = Some x \<and>
                          Date_parse (hearingDate b) = Some y \<and> x \<le> y)
     (getUpcomingHearings tz now st)"
proof -
  have "sorted (map hearingTime (getUpcomingHearings tz now st))"
    by (simp add: getUpcomingHearings_sort_key)
  then have "sorted_wrt (\<lambda>a b. hearingTime a \<le> hearingTime b) (getUpcomingHearings tz now st)"
    by (simp add: sorted_map)
  then show ?thesis
  proof (rule sorted_wrt_mono_rel [rotated])
    fix a b
    assume "a \<in> set (getUpcomingHearings tz now st)" "b \<in> set (getUpcomingHearings tz now st)"
      and le: "hearingTime a \<le> hearingTime b"
    then obtain x y where "Date_parse (hearingDate a) = Some x" "Date_parse (hearingDate b) = Some y"
      by (auto simp: getUpcomingHearings_set dest!: isUpcoming_parsed)
    with le show "\<exists>x y. Date_parse (hearingDate a) = Some x \<and>
                          Date_parse (hearingDate b) = Some y \<and> x \<le> y"
      by (simp add: hearingTime_def)
  qed
qed

lemma getUpcomingHearings_stable:
  "filter (\<lambda>c. Date_parse (hearingDate c) = Some t) (getUpcomingHearings tz now st)
   = filter (\<lambda>c. Date_parse (hearingDate c) = Some t) (filter (isUpcoming tz now) (cases st))"
proof -
  have eq: "filter (\<lambda>c. Date_parse (hearingDate c) = Some t) xs = filter (\<lambda>c. hearingTime c = t) xs"
    if "\<forall>c \<in> set xs. isUpcoming tz now c" for xs
    using that by (intro filter_cong) (auto simp: hearingTime_def dest!: isUpcoming_parsed)
  show ?thesis
    by (simp add: eq getUpcomingHearings_set sort_key_stable getUpcomingHearings_sort_key del: filter_filter)
qed

subsection \<open>Local midnights\<close>

text \<open>
  A date string parses to midnight UTC of its day. \<open>setHours(0, 0, 0, 0)\<close> then moves
  to the local midnight of the local day of that instant: the same day east of
  Greenwich, the day before west of it. The clock is taken between 1970 and the end of
  the range of time values.
\<close>

lemma Date_parse_midnight:
  assumes "Date_parse s = Some t"
  shows "\<exists>d. t = d * msPerDay \<and> \<bar>t\<bar> \<le> 8640000000000000"
  using assms
  by (auto simp: Date_parse_def utcMidnight_def TimeClip_def MakeDate_def
      split: option.splits if_splits prod.splits)

lemma Day_midnight_east:
  assumes "0 \<le> tz" "tz < 1440"
  shows "Day (LocalTime tz (d * msPerDay)) = d"
proof -
  have "(d * 86400000 + tz * 60000) div 86400000 = d + (tz * 60000) div 86400000"
    by simp
  also have "(tz * 60000) div 86400000 = 0"
    using assms by simp
  finally show ?thesis
    by (simp add: Day_def LocalTime_def msPerDay_def msPerMinute_def)
qed

lemma Day_midnight_west:
  assumes "- 1440 < tz" "tz < 0"
  shows "Day (LocalTime tz (d * msPerDay)) = d - 1"
proof -
  have "(d * 86400000 + tz * 60000) div 86400000 = d + (tz * 60000) div 86400000"
    by simp
  also have "(tz * 60000) div 86400000 = - 1"
    using assms by linarith
  finally show ?thesis
    by (simp add: Day_def LocalTime_def msPerDay_def msPerMinute_def)
qed

lemma Day_bounds: "Day t * msPerDay \<le> t \<and> t < Day t * msPerDay + msPerDay"
  unfolding Day_def msPerDay_def by linarith

lemma Day_mult: "Day (d * msPerDay) = d"
  by (simp add: Day_def msPerDay_def)

lemma today_east_west:
  assumes "- 1440 < tz" "tz < 1440" "0 \<le> now" "now \<le> 8640000000000000"
  shows "setHours0 tz (Some now) = Some (Day (LocalTime tz now) * msPerDay - tz * msPerMinute)"
proof -
  from Day_bounds[of "LocalTime tz now"] assms
  have "\<bar>Day (LocalTime tz now) * msPerDay - tz * msPerMinute\<bar> \<le> 8640000000000000"
    unfolding LocalTime_def msPerDay_def msPerMinute_def by linarith
  then show ?thesis
    by (simp add: setHours0_def UTC_def MakeDate_def TimeClip_def)
qed

lemma today_nonneg:
  assumes "- 1440 < tz" "tz < 1440" "0 \<le> now"
  shows "- 1 \<le> Day (LocalTime tz now)" "0 \<le> tz \<Longrightarrow> 0 \<le> Day (LocalTime tz now)"
  using assms unfolding Day_def LocalTime_def msPerDay_def msPerMinute_def by linarith+

text \<open>
  East of Greenwich (and on it) a case passes the filter exactly when its hearing day is
  the local day of the clock or a later one. West of Greenwich it passes exactly when
  its hearing day is a later one: a hearing of the local day is left out.
\<close>

lemma isUpcoming_east:
  assumes tz: "0 \<le> tz" "tz < 1440" and now: "0 \<le> now" "now \<le> 8640000000000000"
  shows "isUpcoming tz now c \<longleftrightarrow>
           (\<exists>t. Date_parse (hearingDate c) = Some t \<and> Day (LocalTime tz now) \<le> Day t)"
proof (cases "Date_parse (hearingDate c)")
  case None
  then show ?thesis by (simp add: isUpcoming_def Let_def setHours0_def geDate_def)
next
  case (Some t)
  then obtain d where t: "t = d * msPerDay" and range: "\<bar>t\<bar> \<le> 8640000000000000"
    using Date_parse_midnight by blast
  have today: "setHours0 tz (Some now) = Some (Day (LocalTime tz now) * msPerDay - tz * msPerMinute)"
    using tz now by (intro today_east_west) auto
  have T0: "0 \<le> Day (LocalTime tz now)"
    using today_nonneg(2)[of tz now] tz now by simp
  have hearing: "setHours0 tz (Some (d * msPerDay)) = TimeClip (d * msPerDay - tz * msPerMinute)"
    using tz by (simp add: setHours0_def Day_midnight_east UTC_def MakeDate_def)
  show ?thesis
  proof (cases "\<bar>d * msPerDay - tz * msPerMinute\<bar> > 8640000000000000")
    case True
    with range t tz have "d < 0"
      by (simp add: msPerDay_def msPerMinute_def)
    with T0 True show ?thesis
      by (simp add: isUpcoming_def Let_def Some hearing today TimeClip_def geDate_def t Day_mult)
  next
    case False
    have "(T * msPerDay - x \<le> d * msPerDay - x) \<longleftrightarrow> T \<le> d" for T x
      by (simp add: msPerDay_def)
    with False show ?thesis
      by (simp add: isUpcoming_def Let_def Some hearing today TimeClip_def geDate_def t Day_mult)
  qed
qed

lemma isUpcoming_west:
  assumes tz: "- 1440 < tz" "tz < 0" and now: "0 \<le> now" "now \<le> 8640000000000000"
  shows "isUpcoming tz now c \<longleftrightarrow>
           (\<exists>t. Date_parse (hearingDate c) = Some t \<and> Day (LocalTime tz now) < Day t)"
proof (cases "Date_parse (hearingDate c)")
  case None
  then show ?thesis by (simp add: isUpcoming_def Let_def setHours0_def geDate_def)
next
  case (Some t)
  then obtain d where t: "t = d * msPerDay" and range: "\<bar>t\<bar> \<le> 8640000000000000"
    using Date_parse_midnight by blast
  have today: "setHours0 tz (Some now) = Some (Day (LocalTime tz now) * msPerDay - tz * msPerMinute)"
    using tz now by (intro today_east_west) auto
  have T0: "- 1 \<le> Day (LocalTime tz now)"
    using today_nonneg(1)[of tz now] tz now by simp
  have hearing: "setHours0 tz (Some (d * msPerDay)) = TimeClip ((d - 1) * msPerDay - tz * msPerMinute)"
    using tz by (simp add: setHours0_def Day_midnight_west UTC_def MakeDate_def)
  show ?thesis
  proof (cases "\<bar>(d - 1) * msPerDay - tz * msPerMinute\<bar> > 8640000000000000")
    case True
    with range t tz have "d < 0"
      by (simp add: msPerDay_def msPerMinute_def)
    with T0 True show ?thesis
      by (simp add: isUpcoming_def Let_def Some hearing today TimeClip_def geDate_def t Day_mult)
  next
    case False
    have "(T * msPerDay - x \<le> (d - 1) * msPerDay - x) \<longleftrightarrow> T < d" for T x
    proof -
      have "0 < msPerDay" by (simp add: msPerDay_def)
      then have "(T * msPerDay \<le> (d - 1) * msPerDay) \<longleftrightarrow> T \<le> d - 1"
        by (simp only: mult_le_cancel_right) auto
      then show ?thesis by linarith
    qed
    with False show ?thesis
      by (simp add: isUpcoming_def Let_def Some hearing today TimeClip_def geDate_def t Day_mult)
  qed
qed

lemma getUpcomingHearings_east:
  assumes "0 \<le> tz" "tz < 1440" "0 \<le> now" "now \<le> 8640000000000000"
  shows "set (getUpcomingHearings tz now st) =
           {c \<in> set (cases st).
              \<exists>t. Date_parse (hearingDate c) = Some t \<and> Day (LocalTime tz now) \<le> Day t}"
  by (simp add: getUpcomingHearings_set isUpcoming_east[OF assms])

lemma getUpcomingHearings_west:
  assumes "- 1440 < tz" "tz < 0" "0 \<le> now" "now \<le> 8640000000000000"
  shows "set (getUpcomingHearings tz now st) =
           {c \<in> set (cases st).
              \<exists>t. Date_parse (hearingDate c) = Some t \<and> Day (LocalTime tz now) < Day t}"
  by (simp add: getUpcomingHearings_set isUpcoming_west[OF assms])

text \<open>
  The difference of two local midnights is a whole number of days, and
  \<open>isWithin7Days\<close> holds east of Greenwich for the hearing days from the local day to
  seven days on, west of Greenwich for those from the next day to eight days on.
\<close>

text \<open>\<open>ceilDays\<close> is the ceiling of the quotient of the difference by the length of a day.\<close>

lemma ceilDays_ceiling:
  "ceilDays (Some x) = Some \<lceil>real_of_int x / real_of_int msPerDay\<rceil>"
  by (simp add: ceilDays_def ceiling_divide_eq_div)

lemma ceilDays_midnights:
  "ceilDays (Some (a * msPerDay - b * msPerDay)) = Some (a - b)"
proof -
  have "a * msPerDay - b * msPerDay = (a - b) * msPerDay"
    by (simp add: algebra_simps)
  moreover have "- ((- ((a - b) * msPerDay)) div msPerDay) = a - b"
    by (simp add: msPerDay_def)
  ultimately show ?thesis by (simp add: ceilDays_def)
qed

lemma isWithin7Days_east:
  assumes tz: "0 \<le> tz" "tz < 1440" and now: "0 \<le> now" "now \<le> 8640000000000000"
  shows "isWithin7Days tz now s \<longleftrightarrow>
           (\<exists>t. Date_parse s = Some t \<and> Day (LocalTime tz now) \<le> Day t \<and>
                Day t \<le> Day (LocalTime tz now) + 7)"
proof (cases "Date_parse s")
  case None
  then show ?thesis by (simp add: isWithin7Days_def setHours0_def subDate_def ceilDays_def)
next
  case (Some t)
  then obtain d where t: "t = d * msPerDay" and range: "\<bar>t\<bar> \<le> 8640000000000000"
    using Date_parse_midnight by blast
  have today: "setHours0 tz (Some now) = Some (Day (LocalTime tz now) * msPerDay - tz * msPerMinute)"
    using tz now by (intro today_east_west) auto
  have T0: "0 \<le> Day (LocalTime tz now)"
    using today_nonneg(2)[of tz now] tz now by simp
  have hearing: "setHours0 tz (Some (d * msPerDay)) = TimeClip (d * msPerDay - tz * msPerMinute)"
    using tz by (simp add: setHours0_def Day_midnight_east UTC_def MakeDate_def)
  show ?thesis
  proof (cases "\<bar>d * msPerDay - tz * msPerMinute\<bar> > 8640000000000000")
    case True
    with range t tz have "d < 0"
      by (simp add: msPerDay_def msPerMinute_def)
    with T0 True show ?thesis
      by (simp add: isWithin7Days_def Some hearing today TimeClip_def subDate_def ceilDays_def
          t Day_mult)
  next
    case False
    then show ?thesis
      by (simp add: isWithin7Days_def Some hearing today TimeClip_def subDate_def
          ceilDays_midnights t Day_mult) linarith
  qed
qed

lemma isWithin7Days_west:
  assumes tz: "- 1440 < tz" "tz < 0" and now: "0 \<le> now" "now \<le> 8640000000000000"
  shows "isWithin7Days tz now s \<longleftrightarrow>
           (\<exists>t. Date_parse s = Some t \<and> Day (LocalTime tz now) + 1 \<le> Day t \<and>
                Day t \<le> Day (LocalTime tz now) + 8)"
proof (cases "Date_parse s")
  case None
  then show ?thesis by (simp add: isWithin7Days_def setHours0_def subDate_def ceilDays_def)
next
  case (Some t)
  then obtain d where t: "t = d * msPerDay" and range: "\<bar>t\<bar> \<le> 8640000000000000"
    using Date_parse_midnight by blast
  have today: "setHours0 tz (Some now) = Some (Day (LocalTime tz now) * msPerDay - tz * msPerMinute)"
    using tz now by (intro today_east_west) auto
  have T0: "- 1 \<le> Day (LocalTime tz now)"
    using today_nonneg(1)[of tz now] tz now by simp
  have hearing: "setHours0 tz (Some (d * msPerDay)) = TimeClip ((d - 1) * msPerDay - tz * msPerMinute)"
    using tz by (simp add: setHours0_def Day_midnight_west UTC_def MakeDate_def)
  show ?thesis
  proof (cases "\<bar>(d - 1) * msPerDay - tz * msPerMinute\<bar> > 8640000000000000")
    case True
    with range t tz have "d < 0"
      by (simp add: msPerDay_def msPerMinute_def)
    with T0 True show ?thesis
      by (simp add: isWithin7Days_def Some hearing today TimeClip_def subDate_def ceilDays_def
          t Day_mult)
  next
    case False
    then show ?thesis
      by (simp add: isWithin7Days_def Some hearing today TimeClip_def subDate_def
          ceilDays_midnights t Day_mult) linarith
  qed
qed


subsection \<open>The calendar\<close>

text \<open>
  A year is 365 or 366 days long, \<open>YearFromDay\<close> is the year the standard defines, and a
  day is the day that \<open>MakeDay\<close> makes of its own year, month and date.
\<close>

lemma div_succ:
  fixes n k :: int
  assumes "0 < k"
  shows "(n + 1) div k = n div k + (if (n + 1) mod k = 0 then 1 else 0)"
proof -
  define q r where "q = n div k" and "r = n mod k"
  have n: "n = k * q + r" and r: "0 \<le> r" "r < k"
    using assms by (simp_all add: q_def r_def)
  show ?thesis
  proof (cases "r + 1 = k")
    case True
    then have eq: "n + 1 = k * (q + 1) + 0" using n by (simp add: algebra_simps)
    have "(n + 1) div k = q + 1"
      using int_div_pos_eq[OF eq] assms by simp
    moreover have "(n + 1) mod k = 0"
      using int_mod_pos_eq[OF eq] assms by simp
    ultimately show ?thesis by (simp add: q_def)
  next
    case False
    with r have r1: "0 \<le> r + 1" "r + 1 < k" by auto
    have eq: "n + 1 = k * q + (r + 1)" using n by simp
    have "(n + 1) div k = q"
      using int_div_pos_eq[OF eq r1] .
    moreover have "(n + 1) mod k = r + 1"
      using int_mod_pos_eq[OF eq r1] .
    ultimately show ?thesis using r by (simp add: q_def)
  qed
qed

lemma mod_shift:
  fixes y :: int
  shows "(y - 1968) mod 4 = y mod 4" "(y - 1900) mod 100 = y mod 100" "(y - 1600) mod 400 = y mod 400"
proof -
  have "(y - 1968) mod 4 = (y + 4 * (- 492)) mod 4" by simp
  then show "(y - 1968) mod 4 = y mod 4" by (simp only: mod_mult_self2)
  have "(y - 1900) mod 100 = (y + 100 * (- 19)) mod 100" by simp
  then show "(y - 1900) mod 100 = y mod 100" by (simp only: mod_mult_self2)
  have "(y - 1600) mod 400 = (y + 400 * (- 4)) mod 400" by simp
  then show "(y - 1600) mod 400 = y mod 400" by (simp only: mod_mult_self2)
qed

lemma mod_400_100_4:
  fixes y :: int
  shows "y mod 400 = 0 \<Longrightarrow> y mod 100 = 0" "y mod 100 = 0 \<Longrightarrow> y mod 4 = 0"
proof -
  assume "y mod 400 = 0"
  then have "400 dvd y" by (simp add: dvd_eq_mod_eq_0)
  moreover have "(100::int) dvd 400" by simp
  ultimately have "100 dvd y" by (rule dvd_trans[rotated])
  then show "y mod 100 = 0" by simp
next
  assume "y mod 100 = 0"
  then have "100 dvd y" by (simp add: dvd_eq_mod_eq_0)
  moreover have "(4::int) dvd 100" by simp
  ultimately have "4 dvd y" by (rule dvd_trans[rotated])
  then show "y mod 4 = 0" by simp
qed

lemma DayFromYear_step:
  "DayFromYear (y + 1) = DayFromYear y + (if isLeapYear y then 366 else 365)"
proof -
  define A B C where "A = (y - 1969) div 4" and "B = (y - 1901) div 100" and "C = (y - 1601) div 400"
  have e: "y + 1 - 1969 = (y - 1969) + 1" "y + 1 - 1901 = (y - 1901) + 1"
    "y + 1 - 1601 = (y - 1601) + 1"
    "y - 1969 + 1 = y - 1968" "y - 1901 + 1 = y - 1900" "y - 1601 + 1 = y - 1600"
    by simp_all
  have a: "(y + 1 - 1969) div 4 = A + (if y mod 4 = 0 then 1 else 0)"
    unfolding e(1) A_def using div_succ[of 4 "y - 1969"] by (simp only: e(4) mod_shift)
  have b: "(y + 1 - 1901) div 100 = B + (if y mod 100 = 0 then 1 else 0)"
    unfolding e(2) B_def using div_succ[of 100 "y - 1901"] by (simp only: e(5) mod_shift)
  have c: "(y + 1 - 1601) div 400 = C + (if y mod 400 = 0 then 1 else 0)"
    unfolding e(3) C_def using div_succ[of 400 "y - 1601"] by (simp only: e(6) mod_shift)
  have new: "DayFromYear (y + 1) = 365 * (y - 1970) + 365
      + (A + (if y mod 4 = 0 then 1 else 0)) - (B + (if y mod 100 = 0 then 1 else 0))
      + (C + (if y mod 400 = 0 then 1 else 0))"
    unfolding DayFromYear_def a b c by simp
  have old: "DayFromYear y = 365 * (y - 1970) + A - B + C"
    unfolding DayFromYear_def A_def B_def C_def by simp
  show ?thesis
  proof (cases "y mod 400 = 0")
    case True
    with mod_400_100_4[of y] have "y mod 100 = 0" "y mod 4 = 0" by simp_all
    with True show ?thesis unfolding new old isLeapYear_def by simp
  next
    case n400: False
    show ?thesis
    proof (cases "y mod 100 = 0")
      case True
      with mod_400_100_4(2)[of y] have "y mod 4 = 0" by simp
      with True n400 show ?thesis unfolding new old isLeapYear_def by simp
    next
      case False
      with n400 show ?thesis unfolding new old isLeapYear_def by simp
    qed
  qed
qed


lemma DayFromYear_mono: "y \<le> y' \<Longrightarrow> DayFromYear y \<le> DayFromYear y'"
proof (induction y' rule: int_ge_induct)
  case base
  then show ?case by simp
next
  case (step i)
  then show ?case using DayFromYear_step[of i] by (simp split: if_splits)
qed

lemma DayFromYear_bounds:
  "146097 * (y - 1970) - 506 \<le> 400 * DayFromYear y"
  "400 * DayFromYear y \<le> 146097 * (y - 1970) + 589"
proof -
  define A B C where "A = (y - 1969) div 4" and "B = (y - 1901) div 100" and "C = (y - 1601) div 400"
  have a: "4 * A \<le> y - 1969" "y - 1969 \<le> 4 * A + 3"
    unfolding A_def by linarith+
  have b: "100 * B \<le> y - 1901" "y - 1901 \<le> 100 * B + 99"
    unfolding B_def by linarith+
  have c: "400 * C \<le> y - 1601" "y - 1601 \<le> 400 * C + 399"
    unfolding C_def by linarith+
  have d: "DayFromYear y = 365 * (y - 1970) + A - B + C"
    unfolding DayFromYear_def A_def B_def C_def by simp
  have a': "100 * y - 197200 \<le> 400 * A" "400 * A \<le> 100 * y - 196900"
    using a by simp_all
  have b': "4 * y - 8000 \<le> 400 * B" "400 * B \<le> 4 * y - 7604"
    using b by simp_all
  have d': "400 * DayFromYear y = 146000 * y - 287620000 + 400 * A - 400 * B + 400 * C"
    unfolding d by simp
  show "146097 * (y - 1970) - 506 \<le> 400 * DayFromYear y"
    unfolding d' using a'(1) b'(2) c(2) by simp
  show "400 * DayFromYear y \<le> 146097 * (y - 1970) + 589"
    unfolding d' using a'(2) b'(1) c(1) by simp
qed

text \<open>\<open>YearFromDay d\<close> is the largest year that starts on day \<open>d\<close> or before it.\<close>

lemma YearFromDay_bounds:
  "DayFromYear (YearFromDay d) \<le> d" "d < DayFromYear (YearFromDay d + 1)"
proof -
  define y where "y = 1970 + (400 * d) div 146097"
  have e: "146097 * (y - 1970) \<le> 400 * d" "400 * d < 146097 * (y - 1970) + 146097"
  proof -
    define r where "r = (400 * d) mod 146097"
    have "400 * d = 146097 * (y - 1970) + r"
      by (simp add: y_def r_def)
    moreover have "0 \<le> r" "r < 146097"
      by (simp_all add: r_def)
    ultimately show "146097 * (y - 1970) \<le> 400 * d" "400 * d < 146097 * (y - 1970) + 146097"
      by simp_all
  qed
  have r: "YearFromDay d =
      (if d < DayFromYear y then y - 1 else if DayFromYear (y + 1) \<le> d then y + 1 else y)"
    unfolding YearFromDay_def y_def Let_def ..
  have "400 * DayFromYear (y - 1) \<le> 400 * d"
    using DayFromYear_bounds(2)[of "y - 1"] e by simp
  then have lo: "DayFromYear (y - 1) \<le> d" by simp
  have "400 * d < 400 * DayFromYear (y + 2)"
    using DayFromYear_bounds(1)[of "y + 2"] e by simp
  then have hi: "d < DayFromYear (y + 2)" by simp
  show "DayFromYear (YearFromDay d) \<le> d"
    unfolding r using lo by auto
  show "d < DayFromYear (YearFromDay d + 1)"
    unfolding r using hi by (auto simp: add.commute numeral_eq_Suc)
qed

lemma YearFromDay_greatest:
  assumes "DayFromYear y \<le> d"
  shows "y \<le> YearFromDay d"
proof (rule ccontr)
  assume "\<not> y \<le> YearFromDay d"
  then have "YearFromDay d + 1 \<le> y" by simp
  then have "DayFromYear (YearFromDay d + 1) \<le> DayFromYear y" by (rule DayFromYear_mono)
  with YearFromDay_bounds(2)[of d] assms show False by simp
qed


lemma DayWithinYear_range:
  "0 \<le> DayWithinYear d" "DayWithinYear d < (if isLeapYear (YearFromDay d) then 366 else 365)"
  using YearFromDay_bounds[of d] DayFromYear_step[of "YearFromDay d"]
  by (auto simp: DayWithinYear_def split: if_splits)

lemma MonthFromDay_range: "0 \<le> MonthFromDay d" "MonthFromDay d \<le> 11"
  by (simp_all add: MonthFromDay_def Let_def)

lemma month_div_mod: "0 \<le> m \<Longrightarrow> m \<le> 11 \<Longrightarrow> m div 12 = 0 \<and> m mod 12 = m" for m :: int
  by simp

lemma MakeDay_fields: "MakeDay (YearFromDay d) (MonthFromDay d) (DateFromDay d) = d"
  using month_div_mod[OF MonthFromDay_range[of d]]
  by (simp add: MakeDay_def DateFromDay_def DayWithinYear_def)

lemma month_cases:
  fixes m :: int
  assumes "0 \<le> m" "m \<le> 11"
  shows "m = 0 \<or> m = 1 \<or> m = 2 \<or> m = 3 \<or> m = 4 \<or> m = 5 \<or> m = 6 \<or> m = 7 \<or> m = 8 \<or> m = 9
          \<or> m = 10 \<or> m = 11"
  using assms by presburger

lemma MakeDay_next_month:
  assumes "0 \<le> m" "m \<le> 11"
  shows "MakeDay y (m + 1) date = MakeDay y m date + DaysInMonth y m"
  using month_cases[OF assms]
  by (elim disjE) (simp_all add: MakeDay_def DaysInMonth_def monthStart_def DayFromYear_step)

lemma DaysInMonth_range: "28 \<le> DaysInMonth y m" "DaysInMonth y m \<le> 31"
  by (simp_all add: DaysInMonth_def)

text \<open>
  \<open>d.setMonth(d.getMonth() + 1)\<close> moves \<open>d\<close> on by the length of the month that \<open>d\<close>
  is in, local time.
\<close>

lemma setMonth_next:
  "setMonth tz (Some t) (case getMonth tz (Some t) of None \<Rightarrow> None | Some m \<Rightarrow> Some (m + 1))
     = TimeClip (t + DaysInMonth (YearFromTime (LocalTime tz t)) (MonthFromTime (LocalTime tz t))
                       * msPerDay)"
proof -
  define lt where "lt = LocalTime tz t"
  define L where "L = Day lt"
  define w where "w = TimeWithinDay lt"
  define len where "len = DaysInMonth (YearFromDay L) (MonthFromDay L)"
  have next_day: "MakeDay (YearFromDay L) (MonthFromDay L + 1) (DateFromDay L) = L + len"
    using MakeDay_next_month[where m = "MonthFromDay L" and y = "YearFromDay L"
        and date = "DateFromDay L"] MonthFromDay_range[of L] MakeDay_fields[of L]
    by (simp add: len_def)
  have lt: "lt = L * msPerDay + w"
    by (simp add: L_def w_def TimeWithinDay_Day)
  have "UTC tz (MakeDate (L + len) w) = (L * msPerDay + w) + len * msPerDay - tz * msPerMinute"
    by (simp add: UTC_def MakeDate_def algebra_simps)
  also have "\<dots> = lt + len * msPerDay - tz * msPerMinute"
    by (simp only: lt[symmetric])
  also have "\<dots> = t + len * msPerDay"
    by (simp add: lt_def LocalTime_def)
  finally have utc: "UTC tz (MakeDate (L + len) w) = t + len * msPerDay" .
  have "setMonth tz (Some t) (case getMonth tz (Some t) of None \<Rightarrow> None | Some m \<Rightarrow> Some (m + 1))
          = TimeClip (UTC tz (MakeDate (MakeDay (YearFromDay L) (MonthFromDay L + 1) (DateFromDay L)) w))"
    by (simp add: setMonth_def getMonth_def YearFromTime_def MonthFromTime_def DateFromTime_def
        Let_def lt_def L_def w_def)
  also have "\<dots> = TimeClip (t + len * msPerDay)"
    by (simp only: next_day utc)
  finally show ?thesis
    by (simp add: len_def L_def lt_def YearFromTime_def MonthFromTime_def)
qed

text \<open>
  The month that \<open>new Date("YYYY-MM-DD")\<close> is in, local time, is the month of the date
  east of Greenwich; west of it the instant is on the day before, which for the first of
  a month is in the month before.
\<close>

lemma advanceCase_parsed:
  assumes "Date_parse (hearingDate c) = Some t" "id_field c = caseId"
  shows "advanceCase tz caseId c =
           (case TimeClip (t + DaysInMonth (YearFromTime (LocalTime tz t))
                                  (MonthFromTime (LocalTime tz t)) * msPerDay) of
              None \<Rightarrow> Inl RangeError
            | Some t' \<Rightarrow>
                Inr (c\<lparr>hearingDate := splitT0 (isoOfTime t'), caseStatus := ''Adjourned''\<rparr>))"
  using assms
  by (simp add: advanceCase_def Let_def setMonth_next toISOString_def split: option.splits)

lemma advanceCase_unparsed:
  assumes "Date_parse (hearingDate c) = None" "id_field c = caseId"
  shows "advanceCase tz caseId c = Inl RangeError"
  using assms by (simp add: advanceCase_def Let_def setMonth_def getMonth_def toISOString_def)

text \<open>
  The updater throws only on a hearing date that does not parse, or that lies within a
  month of the end of the range of time values (the year 275760).
\<close>

lemma advanceCase_succeeds:
  assumes "Date_parse (hearingDate c) = Some t" "t \<le> 8639997321600000"
  shows "\<exists>c'. advanceCase tz caseId c = Inr c'"
proof (cases "id_field c = caseId")
  case True
  let ?len = "DaysInMonth (YearFromTime (LocalTime tz t)) (MonthFromTime (LocalTime tz t))"
  from Date_parse_midnight[OF assms(1)] have "- 8640000000000000 \<le> t" by auto
  moreover have "0 \<le> ?len * msPerDay" "?len * msPerDay \<le> 2678400000"
    using DaysInMonth_range[of "YearFromTime (LocalTime tz t)" "MonthFromTime (LocalTime tz t)"]
    by (simp_all add: msPerDay_def)
  ultimately have "\<bar>t + ?len * msPerDay\<bar> \<le> 8640000000000000"
    using assms(2) by linarith
  then show ?thesis
    by (simp add: advanceCase_parsed[OF assms(1) True] TimeClip_def)
next
  case False
  then show ?thesis by (simp add: advanceCase_other)
qed

lemma moveToNextHearing_succeeds:
  assumes "\<forall>c \<in> set prev. \<exists>t. Date_parse (hearingDate c) = Some t \<and> t \<le> 8639997321600000"
  shows "\<exists>cases'. moveToNextHearing tz caseId prev = Inr cases'"
proof (cases "moveToNextHearing tz caseId prev")
  case (Inl e)
  then obtain c where "c \<in> set prev" "advanceCase tz caseId c = Inl e"
    unfolding moveToNextHearing_def by (blast dest: mapE_Inl)
  with assms advanceCase_succeeds[of c _ tz caseId] show ?thesis by fastforce
next
  case (Inr cases')
  then show ?thesis by blast
qed

subsection \<open>West of Greenwich\<close>

text \<open>
  At 17:00 UTC on 31 January 2024 it is noon of 31 January in a zone five hours behind
  UTC.
\<close>

lemma local_noon_jan31:
  "YearFromTime (LocalTime (- 300) 1706720400000) = 2024 \<and>
   MonthFromTime (LocalTime (- 300) 1706720400000) = 0 \<and>
   DateFromTime (LocalTime (- 300) 1706720400000) = 31"
  by code_simp

text \<open>
  C3 on that day in that zone, with hearings in three days, today and tomorrow: the
  list has tomorrow's hearing and the one in three days, in that order, and today's
  hearing is missing. The specification expects today's hearing first.
\<close>

theorem getUpcomingHearings_west_drops_today:
  "getUpcomingHearings (- 300) 1706720400000
     (sampleApp
        [sampleCase 1 ''CV-1'' ''Abdul Rahman'' ''2024-02-03'' ''Pending'',
         sampleCase 2 ''CV-2'' ''Meera Nair'' ''2024-01-31'' ''Pending'',
         sampleCase 3 ''CV-3'' ''Abdul Rahman'' ''2024-02-01'' ''Pending''] emptyForm [])
   = [sampleCase 3 ''CV-3'' ''Abdul Rahman'' ''2024-02-01'' ''Pending'',
      sampleCase 1 ''CV-1'' ''Abdul Rahman'' ''2024-02-03'' ''Pending'']"
  by code_simp

text \<open>The same call five and a half hours ahead of UTC gives what the specification expects.\<close>

lemma getUpcomingHearings_east_example:
  "getUpcomingHearings 330 1706720400000
     (sampleApp
        [sampleCase 1 ''CV-1'' ''Abdul Rahman'' ''2024-02-03'' ''Pending'',
         sampleCase 2 ''CV-2'' ''Meera Nair'' ''2024-01-31'' ''Pending'',
         sampleCase 3 ''CV-3'' ''Abdul Rahman'' ''2024-02-01'' ''Pending''] emptyForm [])
   = [sampleCase 2 ''CV-2'' ''Meera Nair'' ''2024-01-31'' ''Pending'',
      sampleCase 3 ''CV-3'' ''Abdul Rahman'' ''2024-02-01'' ''Pending'',
      sampleCase 1 ''CV-1'' ''Abdul Rahman'' ''2024-02-03'' ''Pending'']"
  by code_simp

text \<open>
  C5 on that day in that zone: a hearing today is not urgent, and a hearing eight days
  ahead is. The specification expects the opposite in both cases.
\<close>

theorem isWithin7Days_west_off_by_one:
  "\<not> isWithin7Days (- 300) 1706720400000 ''2024-01-31'' \<and>
   isWithin7Days (- 300) 1706720400000 ''2024-02-08''"
  by code_simp

lemma isWithin7Days_east_example:
  "isWithin7Days 330 1706720400000 ''2024-01-31'' \<and>
   isWithin7Days 330 1706720400000 ''2024-02-07'' \<and>
   \<not> isWithin7Days 330 1706720400000 ''2024-02-08'' \<and>
   \<not> isWithin7Days 330 1706720400000 ''2024-01-30''"
  by code_simp

subsection \<open>Writing and reading JSON text\<close>

declare digitsOfNat.simps [simp del]

lemma hexVal_table: "\<forall>n \<in> set [0..<16]. hexVal (''0123456789abcdef'' ! n) = Some n"
  by code_simp

lemma hexVal_hexDigit: "n < 16 \<Longrightarrow> hexVal (''0123456789abcdef'' ! n) = Some n"
  using hexVal_table by simp

lemma hexVal_zero: "hexVal CHR ''0'' = Some 0"
  by (simp add: hexVal_def)

lemma unicodeEscape_control:
  assumes "(of_char c :: nat) < 32"
  shows "unicodeEscape CHR ''0'' CHR ''0'' (''0123456789abcdef'' ! ((of_char c :: nat) div 16))
           (''0123456789abcdef'' ! ((of_char c :: nat) mod 16)) = Some c"
proof -
  have "(of_char c :: nat) div 16 < 16" using assms by simp
  then show ?thesis
    by (simp add: unicodeEscape_def hexVal_zero hexVal_hexDigit)
qed

lemma scanString_escapeChar:
  "scanString (escapeChar c @ zs) =
     (case scanString zs of None \<Rightarrow> None | Some (s, r) \<Rightarrow> Some (c # s, r))"
proof -
  consider (special) "c \<in> {CHR 0x08, CHR 0x09, CHR 0x0A, CHR 0x0C, CHR 0x0D, CHR 0x22, CHR 0x5C}"
    | (control) "c \<notin> {CHR 0x08, CHR 0x09, CHR 0x0A, CHR 0x0C, CHR 0x0D, CHR 0x22, CHR 0x5C}"
        "(of_char c :: nat) < 32"
    | (plain) "c \<notin> {CHR 0x08, CHR 0x09, CHR 0x0A, CHR 0x0C, CHR 0x0D, CHR 0x22, CHR 0x5C}"
        "\<not> (of_char c :: nat) < 32"
    by blast
  then show ?thesis
  proof cases
    case special
    then show ?thesis
      by (auto simp: escapeChar_def unescape_def)
  next
    case control
    then show ?thesis
      by (simp add: escapeChar_def unicodeEscape_control)
  next
    case plain
    then show ?thesis
      by (simp add: escapeChar_def)
  qed
qed

lemma scanString_quoted:
  "scanString (concat (map escapeChar s) @ CHR 0x22 # rest) = Some (s, rest)"
  by (induction s) (simp_all add: scanString_escapeChar)


lemma digit_table: "\<forall>n \<in> set [0..<10]. digitVal (''0123456789'' ! n) = Some (int n)"
  by code_simp

lemma digitVal_digit: "n < 10 \<Longrightarrow> digitVal (''0123456789'' ! n) = Some (int n)"
  using digit_table by simp

lemma isDigit_digit: "n < 10 \<Longrightarrow> isDigit (''0123456789'' ! n)"
  by (simp add: isDigit_def digitVal_digit)

lemma digit_zero_table: "\<forall>n \<in> set [0..<10]. (''0123456789'' ! n = CHR ''0'') = (n = 0)"
  by code_simp

lemma digit_eq_zero: "n < 10 \<Longrightarrow> (''0123456789'' ! n = CHR ''0'') = (n = 0)"
  using digit_zero_table by simp

lemma digitsVal_append:
  "digitsVal acc (xs @ ys) = (case digitsVal acc xs of None \<Rightarrow> None | Some v \<Rightarrow> digitsVal v ys)"
  by (induction xs arbitrary: acc) (auto split: option.splits)

lemma digitsOfNat_nonempty: "digitsOfNat n \<noteq> []"
  by (subst digitsOfNat.simps) simp

lemma digitsOfNat_digits: "c \<in> set (digitsOfNat n) \<Longrightarrow> isDigit c"
proof (induction n arbitrary: c rule: digitsOfNat.induct)
  case (1 n)
  show ?case
  proof (cases "n < 10")
    case True
    then have "digitsOfNat n = [''0123456789'' ! n]"
      by (subst digitsOfNat.simps) simp
    with "1.prems" True show ?thesis
      by (simp add: isDigit_digit)
  next
    case False
    then have "digitsOfNat n = digitsOfNat (n div 10) @ [''0123456789'' ! (n mod 10)]"
      by (subst digitsOfNat.simps) simp
    with "1.prems" have "c \<in> set (digitsOfNat (n div 10)) \<or> c = ''0123456789'' ! (n mod 10)"
      by auto
    with False "1.IH" show ?thesis
      by (auto simp: isDigit_digit)
  qed
qed

lemma digitsVal_digitsOfNat: "digitsVal 0 (digitsOfNat n) = Some (int n)"
proof (induction n rule: digitsOfNat.induct)
  case (1 n)
  show ?case
  proof (cases "n < 10")
    case True
    then show ?thesis
      by (subst digitsOfNat.simps) (simp add: digitVal_digit)
  next
    case False
    with "1.IH" have "digitsVal 0 (digitsOfNat (n div 10)) = Some (int (n div 10))"
      by simp
    with False show ?thesis
      by (subst digitsOfNat.simps) (simp add: digitsVal_append digitVal_digit zdiv_int zmod_int)
  qed
qed

lemma digitsOfNat_hd_zero: "hd (digitsOfNat n) = CHR ''0'' \<Longrightarrow> length (digitsOfNat n) = 1"
proof (induction n rule: digitsOfNat.induct)
  case (1 n)
  show ?case
  proof (cases "n < 10")
    case True
    then show ?thesis by (subst digitsOfNat.simps) simp
  next
    case False
    then have step: "digitsOfNat n = digitsOfNat (n div 10) @ [''0123456789'' ! (n mod 10)]"
      by (subst digitsOfNat.simps) simp
    with "1.prems" have "hd (digitsOfNat (n div 10)) = CHR ''0''"
      by (simp add: digitsOfNat_nonempty)
    with "1.IH" False have len: "length (digitsOfNat (n div 10)) = 1" by simp
    from False have pos: "n div 10 \<noteq> 0" by simp
    show ?thesis
    proof (cases "n div 10 < 10")
      case True
      then have "digitsOfNat (n div 10) = [''0123456789'' ! (n div 10)]"
        by (subst digitsOfNat.simps) simp
      with \<open>hd (digitsOfNat (n div 10)) = CHR ''0''\<close>
      have "''0123456789'' ! (n div 10) = CHR ''0''" by simp
      with digit_eq_zero[OF True] pos show ?thesis by simp
    next
      case False
      then have "digitsOfNat (n div 10)
          = digitsOfNat (n div 10 div 10) @ [''0123456789'' ! (n div 10 mod 10)]"
        by (subst digitsOfNat.simps) simp
      with len digitsOfNat_nonempty[of "n div 10 div 10"] show ?thesis
        by (cases "digitsOfNat (n div 10 div 10)") auto
    qed
  qed
qed

lemma takeWhile_all:
  assumes "\<forall>x \<in> set xs. P x" "ys = [] \<or> \<not> P (hd ys)"
  shows "takeWhile P (xs @ ys) = xs" "dropWhile P (xs @ ys) = ys"
proof -
  from assms(2) have "takeWhile P ys = []" "dropWhile P ys = ys"
    by (cases ys; simp)+
  with assms(1) show "takeWhile P (xs @ ys) = xs" "dropWhile P (xs @ ys) = ys"
    by (induction xs) auto
qed

lemma minus_not_digit: "\<not> isDigit CHR ''-''"
  by (simp add: isDigit_def digitVal_def)

lemma scanNumber_digits:
  assumes ds: "\<forall>c \<in> set ds. isDigit c" "ds \<noteq> []" "\<not> (hd ds = CHR ''0'' \<and> length ds > 1)"
    and v: "digitsVal 0 ds = Some v"
    and rest: "rest = [] \<or> (\<not> isDigit (hd rest) \<and> hd rest \<noteq> CHR ''.'' \<and> hd rest \<noteq> CHR ''e''
             \<and> hd rest \<noteq> CHR ''E'')"
  shows "scanNumber (ds @ rest) = Some (v, rest)"
    and "scanNumber (CHR ''-'' # ds @ rest) = Some (- v, rest)"
proof -
  have r: "rest = [] \<or> \<not> isDigit (hd rest)" using rest by blast
  have tw: "takeWhile isDigit (ds @ rest) = ds" "dropWhile isDigit (ds @ rest) = rest"
    using takeWhile_all[OF ds(1) r] by simp_all
  have "isDigit (hd ds)" using ds(1,2) by simp
  with minus_not_digit have hd: "hd ds \<noteq> CHR ''-''" by auto
  have stop: "\<not> (rest \<noteq> [] \<and> (hd rest = CHR ''.'' \<or> hd rest = CHR ''e'' \<or> hd rest = CHR ''E''))"
    using rest by blast
  show "scanNumber (ds @ rest) = Some (v, rest)"
    unfolding scanNumber_def Let_def using ds(2,3) hd stop
    by (simp add: tw v)
  show "scanNumber (CHR ''-'' # ds @ rest) = Some (- v, rest)"
    unfolding scanNumber_def Let_def using ds(2,3) stop
    by (simp add: tw v)
qed

lemma scanNumber_numberToString:
  assumes "rest = [] \<or> (\<not> isDigit (hd rest) \<and> hd rest \<noteq> CHR ''.'' \<and> hd rest \<noteq> CHR ''e''
             \<and> hd rest \<noteq> CHR ''E'')"
  shows "scanNumber (numberToString i @ rest) = Some (i, rest)"
proof -
  have ok: "\<forall>c \<in> set (digitsOfNat n). isDigit c" "digitsOfNat n \<noteq> []"
    "\<not> (hd (digitsOfNat n) = CHR ''0'' \<and> length (digitsOfNat n) > 1)"
    "digitsVal 0 (digitsOfNat n) = Some (int n)" for n
    using digitsOfNat_hd_zero[of n]
    by (auto simp: digitsOfNat_digits digitsOfNat_nonempty digitsVal_digitsOfNat)
  show ?thesis
  proof (cases "i < 0")
    case True
    with scanNumber_digits(2)[OF ok assms, of "nat (- i)"] show ?thesis
      by (simp add: numberToString_def)
  next
    case False
    with scanNumber_digits(1)[OF ok assms, of "nat i"] show ?thesis
      by (simp add: numberToString_def)
  qed
qed


lemma isDigit_cases:
  "isDigit c \<Longrightarrow> c \<in> set ''0123456789''"
  by (auto simp: isDigit_def digitVal_def split: if_splits)

lemma skipWs_Cons: "\<not> isWs c \<Longrightarrow> skipWs (c # cs) = c # cs"
  by (simp add: skipWs_def)

lemma numberToString_hd:
  "\<exists>c cs. numberToString i = c # cs \<and> startsNumber c"
proof -
  obtain d ds where "digitsOfNat (nat \<bar>i\<bar>) = d # ds"
    using digitsOfNat_nonempty by (cases "digitsOfNat (nat \<bar>i\<bar>)") auto
  moreover from this have "isDigit d"
    using digitsOfNat_digits[of d "nat \<bar>i\<bar>"] by simp
  ultimately show ?thesis
    by (cases "i < 0") (auto simp: numberToString_def startsNumber_def abs_if)
qed

lemma startsNumber_not:
  assumes "startsNumber c"
  shows "\<not> isWs c" "c \<noteq> CHR ''[''" "c \<noteq> CHR ''{''" "c \<noteq> CHR 0x22" "c \<noteq> CHR ''n''"
    "c \<noteq> CHR ''t''" "c \<noteq> CHR ''f''" "c \<noteq> CHR '']''" "c \<noteq> CHR ''}''"
  using assms by (auto simp: startsNumber_def isWs_def dest!: isDigit_cases)

lemma endsValue_number:
  "endsValue rest \<Longrightarrow>
     rest = [] \<or> (\<not> isDigit (hd rest) \<and> hd rest \<noteq> CHR ''.'' \<and> hd rest \<noteq> CHR ''e''
       \<and> hd rest \<noteq> CHR ''E'')"
  by (auto simp: endsValue_def dest!: isDigit_cases)

lemma stringifyValue_hd:
  "\<exists>c cs. stringifyValue v = c # cs \<and> \<not> isWs c \<and> c \<noteq> CHR '']'' \<and> c \<noteq> CHR ''}''"
proof (cases v)
  case (JNum i)
  with numberToString_hd[of i] startsNumber_not show ?thesis by auto
qed (auto simp: isWs_def QuoteJSONString_def)

lemma parse_scalar:
  "parseValue (Suc fuel) (''null'' @ rest) = Some (JNull, rest)"
  "parseValue (Suc fuel) (''true'' @ rest) = Some (JBool True, rest)"
  "parseValue (Suc fuel) (''false'' @ rest) = Some (JBool False, rest)"
  "parseValue (Suc fuel) (QuoteJSONString s @ rest) = Some (JStr s, rest)"
  by (simp_all add: skipWs_def isWs_def QuoteJSONString_def scanString_quoted)

lemma parse_number:
  assumes "endsValue rest"
  shows "parseValue (Suc fuel) (numberToString i @ rest) = Some (JNum i, rest)"
proof -
  obtain c cs where eq: "numberToString i = c # cs" and c: "startsNumber c"
    using numberToString_hd by blast
  have "scanNumber (c # cs @ rest) = Some (i, rest)"
    using scanNumber_numberToString[OF endsValue_number[OF assms], of i] eq by simp
  with startsNumber_not[OF c] show ?thesis
    by (simp add: eq skipWs_Cons)
qed


lemma endsValue_simps:
  "endsValue []" "endsValue (CHR '','' # r)" "endsValue (CHR '']'' # r)" "endsValue (CHR ''}'' # r)"
  by (simp_all add: endsValue_def)

lemma skipWs_sep:
  "skipWs (CHR '','' # r) = CHR '','' # r" "skipWs (CHR '']'' # r) = CHR '']'' # r"
  "skipWs (CHR ''}'' # r) = CHR ''}'' # r" "skipWs (CHR '':'' # r) = CHR '':'' # r"
  "skipWs (CHR 0x22 # r) = CHR 0x22 # r" "skipWs (CHR ''['' # r) = CHR ''['' # r"
  "skipWs (CHR ''{'' # r) = CHR ''{'' # r"
  by (simp_all add: skipWs_def isWs_def)

lemma parseElements_stringify:
  assumes "\<And>v fuel rest. v \<in> set vs \<Longrightarrow> length (stringifyValue v) \<le> fuel \<Longrightarrow>
                 endsValue rest \<Longrightarrow> parseValue fuel (stringifyValue v @ rest) = Some (v, rest)"
    and "vs \<noteq> []"
    and "length (commaSep (map stringifyValue vs)) < fuel"
  shows "parseElements fuel (commaSep (map stringifyValue vs) @ CHR '']'' # rest) = Some (vs, rest)"
  using assms
proof (induction vs arbitrary: fuel)
  case Nil
  then show ?case by simp
next
  case (Cons v vs)
  show ?case
  proof (cases vs)
    case Nil
    with Cons.prems(3) obtain f where fuel: "fuel = Suc f" and len: "length (stringifyValue v) \<le> f"
      by (cases fuel) auto
    have "parseValue f (stringifyValue v @ CHR '']'' # rest) = Some (v, CHR '']'' # rest)"
      using Cons.prems(1)[of v f] len by (simp add: endsValue_simps)
    then show ?thesis by (simp add: fuel Nil skipWs_sep)
  next
    case (Cons w ws)
    from Cons.prems(3) obtain f where fuel: "fuel = Suc f"
      and len: "length (stringifyValue v) \<le> f"
      and len': "length (commaSep (map stringifyValue vs)) < f"
      by (cases fuel) (auto simp: Cons)
    have "parseValue f (stringifyValue v @ CHR '','' # commaSep (map stringifyValue vs) @ CHR '']'' # rest)
            = Some (v, CHR '','' # commaSep (map stringifyValue vs) @ CHR '']'' # rest)"
      using Cons.prems(1)[of v f] len by (simp add: endsValue_simps)
    moreover have "parseElements f (commaSep (map stringifyValue vs) @ CHR '']'' # rest) = Some (vs, rest)"
    proof (rule Cons.IH)
      show "vs \<noteq> []" using Cons by simp
      show "length (commaSep (map stringifyValue vs)) < f" by (rule len')
      show "parseValue fuel (stringifyValue v @ rest) = Some (v, rest)"
        if "v \<in> set vs" "length (stringifyValue v) \<le> fuel" "endsValue rest"
        for v fuel rest
        using Cons.prems(1)[of v fuel rest] that by simp
    qed
    ultimately show ?thesis
      by (simp add: fuel Cons skipWs_sep)
  qed
qed

lemma parseMembers_stringify:
  assumes "\<And>k v fuel rest. (k, v) \<in> set ms \<Longrightarrow> length (stringifyValue v) \<le> fuel \<Longrightarrow>
                 endsValue rest \<Longrightarrow> parseValue fuel (stringifyValue v @ rest) = Some (v, rest)"
    and "ms \<noteq> []"
    and "length (commaSep (map (\<lambda>(k, v). QuoteJSONString k @ CHR '':'' # stringifyValue v) ms)) < fuel"
  shows "parseMembers fuel
           (commaSep (map (\<lambda>(k, v). QuoteJSONString k @ CHR '':'' # stringifyValue v) ms)
              @ CHR ''}'' # rest) = Some (ms, rest)"
  using assms
proof (induction ms arbitrary: fuel)
  case Nil
  then show ?case by simp
next
  case (Cons m ms)
  obtain k v where m: "m = (k, v)" by (cases m)
  let ?rest = "commaSep (map (\<lambda>(k, v). QuoteJSONString k @ CHR '':'' # stringifyValue v) ms)"
  show ?case
  proof (cases ms)
    case Nil
    with Cons.prems(3) obtain f where fuel: "fuel = Suc f" and len: "length (stringifyValue v) \<le> f"
      by (cases fuel) (auto simp: m)
    have "parseValue f (stringifyValue v @ CHR ''}'' # rest) = Some (v, CHR ''}'' # rest)"
      using Cons.prems(1)[of k v f] len by (simp add: endsValue_simps m)
    then show ?thesis
      by (simp add: fuel m Nil skipWs_sep QuoteJSONString_def scanString_quoted)
  next
    case (Cons w ws)
    from Cons.prems(3) obtain f where fuel: "fuel = Suc f"
      and len: "length (stringifyValue v) \<le> f"
      and len': "length ?rest < f"
      by (cases fuel) (auto simp: Cons m)
    have "parseValue f (stringifyValue v @ CHR '','' # ?rest @ CHR ''}'' # rest)
            = Some (v, CHR '','' # ?rest @ CHR ''}'' # rest)"
      using Cons.prems(1)[of k v f] len by (simp add: endsValue_simps m)
    moreover have "parseMembers f (?rest @ CHR ''}'' # rest) = Some (ms, rest)"
    proof (rule Cons.IH)
      show "ms \<noteq> []" using Cons by simp
      show "length ?rest < f" by (rule len')
      show "parseValue fuel (stringifyValue v @ rest) = Some (v, rest)"
        if "(k, v) \<in> set ms" "length (stringifyValue v) \<le> fuel" "endsValue rest"
        for k v fuel rest
        using Cons.prems(1)[of k v fuel rest] that by simp
    qed
    ultimately show ?thesis
      by (simp add: fuel Cons m skipWs_sep QuoteJSONString_def scanString_quoted)
  qed
qed


lemma commaSep_hd:
  assumes "xs \<noteq> []" "hd xs = c # cs"
  shows "\<exists>cs'. commaSep xs = c # cs'"
  using assms by (cases xs rule: commaSep.cases) auto

lemma parseValue_stringify:
  "length (stringifyValue v) \<le> fuel \<Longrightarrow> endsValue rest \<Longrightarrow>
     parseValue fuel (stringifyValue v @ rest) = Some (v, rest)"
proof (induction v arbitrary: fuel rest)
  case JNull
  then obtain f where "fuel = Suc f" by (cases fuel) auto
  then show ?case using parse_scalar(1)[of f rest] by simp
next
  case (JBool b)
  then obtain f where "fuel = Suc f" by (cases fuel) (auto split: if_splits)
  then show ?case using parse_scalar(2,3)[of f rest] by (cases b) simp_all
next
  case (JNum i)
  have "numberToString i \<noteq> []" using numberToString_hd[of i] by auto
  with JNum obtain f where "fuel = Suc f" by (cases fuel) auto
  then show ?case using parse_number[OF JNum.prems(2), of f i]
    by (simp del: parseValue.simps)
next
  case (JStr s)
  then obtain f where "fuel = Suc f" by (cases fuel) (auto simp: QuoteJSONString_def)
  then show ?case using parse_scalar(4)[of f s rest]
    by (simp del: parseValue.simps)
next
  case (JArr vs)
  from JArr.prems obtain f where fuel: "fuel = Suc f"
    and len: "length (commaSep (map stringifyValue vs)) < f"
    by (cases fuel) auto
  show ?case
  proof (cases "vs = []")
    case True
    then show ?thesis by (simp add: fuel skipWs_sep)
  next
    case False
    obtain c cs where hd: "stringifyValue (hd vs) = c # cs" "\<not> isWs c" "c \<noteq> CHR '']''"
      using stringifyValue_hd[of "hd vs"] by blast
    with False obtain cs' where first: "commaSep (map stringifyValue vs) = c # cs'"
      using commaSep_hd[of "map stringifyValue vs" c cs] by (auto simp: hd_map)
    have "parseElements f (commaSep (map stringifyValue vs) @ CHR '']'' # rest) = Some (vs, rest)"
      using JArr.IH False len by (intro parseElements_stringify) auto
    from \<open>parseElements f (commaSep (map stringifyValue vs) @ CHR '']'' # rest) = Some (vs, rest)\<close>
    have elems: "parseElements f (c # cs' @ CHR '']'' # rest) = Some (vs, rest)"
      by (simp add: first)
    have ws: "skipWs (c # cs' @ CHR '']'' # rest) = c # cs' @ CHR '']'' # rest"
      using hd(2) by (rule skipWs_Cons)
    show ?thesis
      using hd(3) by (simp add: fuel first skipWs_sep ws elems)
  qed
next
  case (JObj ms)
  let ?text = "commaSep (map (\<lambda>(k, v). QuoteJSONString k @ CHR '':'' # stringifyValue v) ms)"
  from JObj.prems obtain f where fuel: "fuel = Suc f" and len: "length ?text < f"
    by (cases fuel) auto
  show ?case
  proof (cases "ms = []")
    case True
    then show ?thesis by (simp add: fuel skipWs_sep)
  next
    case False
    then obtain cs' where first: "?text = CHR 0x22 # cs'"
      using commaSep_hd[of "map (\<lambda>(k, v). QuoteJSONString k @ CHR '':'' # stringifyValue v) ms"
          "CHR 0x22"]
      by (cases ms) (auto simp: QuoteJSONString_def split: prod.splits)
    have "parseMembers f (?text @ CHR ''}'' # rest) = Some (ms, rest)"
    proof (rule parseMembers_stringify)
      show "ms \<noteq> []" by (rule False)
      show "length ?text < f" by (rule len)
      show "parseValue fuel (stringifyValue v @ rest) = Some (v, rest)"
        if "(k, v) \<in> set ms" "length (stringifyValue v) \<le> fuel" "endsValue rest"
        for k v fuel rest
        using JObj.IH[of "(k, v)" v fuel rest] that by simp
    qed
    then have membs: "parseMembers f (CHR 0x22 # cs' @ CHR ''}'' # rest) = Some (ms, rest)"
      by (simp add: first)
    show ?thesis
      by (simp add: fuel first skipWs_sep membs)
  qed
qed

theorem JSON_parse_stringify: "JSON_parse (stringifyValue v) = Inr v"
  using parseValue_stringify[of v "length (stringifyValue v)" "[]"]
  by (simp add: JSON_parse_def endsValue_def skipWs_def)


subsection \<open>The fuel of the parser\<close>

text \<open>
  A call of the parser that returns has read at least one character, returns the same
  with more fuel, and needs no more fuel than the characters it read.
\<close>

lemma skipWs_length: "length (skipWs s) \<le> length s"
  by (simp add: skipWs_def length_dropWhile_le)

lemma skipWs_Cons_length: "skipWs s = c # cs \<Longrightarrow> length cs < length s"
  using skipWs_length[of s] by simp

lemma scanString_length: "scanString s = Some (str, r) \<Longrightarrow> length r < length s"
proof (induction s arbitrary: str r rule: scanString.induct)
  case 1
  then show ?case by simp
next
  case (2 c cs)
  then show ?case
    by (auto split: if_splits list.splits option.splits prod.splits) fastforce+
qed

lemma scanNumber_length: "scanNumber s = Some (i, r) \<Longrightarrow> length r < length s"
proof -
  assume a: "scanNumber s = Some (i, r)"
  define s1 where "s1 = (if s \<noteq> [] \<and> hd s = CHR ''-'' then tl s else s)"
  from a have r: "r = dropWhile isDigit s1" and ne: "takeWhile isDigit s1 \<noteq> []"
    by (auto simp: scanNumber_def Let_def s1_def split: if_splits option.splits)
  have "length (takeWhile isDigit s1) + length (dropWhile isDigit s1) = length s1"
    by (metis length_append takeWhile_dropWhile_id)
  with ne have "length r < length s1" by (cases "takeWhile isDigit s1") (auto simp: r)
  moreover have "length s1 \<le> length s" by (simp add: s1_def)
  ultimately show ?thesis by simp
qed


lemma take_drop_length: "take k s = lit \<Longrightarrow> lit \<noteq> [] \<Longrightarrow> length (drop k s) < length s"
  by (cases k; cases s) auto

lemma parse_length:
  "parseValue n s = Some (v, r) \<Longrightarrow> length r < length s"
  "parseElements n s = Some (vs, r') \<Longrightarrow> length r' < length s"
  "parseMembers n s = Some (ms, r'') \<Longrightarrow> length r'' < length s"
proof (induction n s and n s and n s arbitrary: v r and vs r' and ms r''
    rule: parseValue_parseElements_parseMembers.induct)
  case (1 s)
  then show ?case by simp
next
  case (2 fuel s)
  from "2.prems" obtain c cs where ws: "skipWs s = c # cs"
    by (cases "skipWs s") auto
  note len = skipWs_Cons_length[OF ws]
  consider (arr) "c = CHR ''[''" | (obj) "c \<noteq> CHR ''[''" "c = CHR ''{''"
    | (str) "c \<noteq> CHR ''[''" "c \<noteq> CHR ''{''" "c = CHR 0x22"
    | (other) "c \<noteq> CHR ''[''" "c \<noteq> CHR ''{''" "c \<noteq> CHR 0x22"
    by blast
  then show ?case
  proof cases
    case arr
    from "2.prems" obtain c1 cs1 where ws1: "skipWs cs = c1 # cs1"
      by (cases "skipWs cs") (auto simp: ws arr)
    show ?thesis
    proof (cases "c1 = CHR '']''")
      case True
      with "2.prems" have "r = cs1" by (simp add: ws arr ws1)
      with skipWs_Cons_length[OF ws1] len show ?thesis by simp
    next
      case False
      with "2.prems" obtain vs where "parseElements fuel cs = Some (vs, r)"
        by (auto simp: ws arr ws1 split: option.splits)
      from "2.IH"(1)[OF ws arr ws1 False this] len show ?thesis by simp
    qed
  next
    case obj
    from "2.prems" obtain c1 cs1 where ws1: "skipWs cs = c1 # cs1"
      by (cases "skipWs cs") (auto simp: ws obj)
    show ?thesis
    proof (cases "c1 = CHR ''}''")
      case True
      with "2.prems" have "r = cs1" by (simp add: ws obj ws1)
      with skipWs_Cons_length[OF ws1] len show ?thesis by simp
    next
      case False
      with "2.prems" obtain ms where "parseMembers fuel cs = Some (ms, r)"
        by (auto simp: ws obj ws1 split: option.splits)
      from "2.IH"(2)[OF ws obj ws1 False this] len show ?thesis by simp
    qed
  next
    case str
    with "2.prems" obtain x where "scanString cs = Some (x, r)"
      by (auto simp: ws split: option.splits)
    from scanString_length[OF this] len show ?thesis by simp
  next
    case other
    have "length r < length (c # cs)"
    proof (cases "take 4 (c # cs) = ''null'' \<or> take 4 (c # cs) = ''true'' \<or> take 5 (c # cs) = ''false''")
      case True
      with "2.prems" other show ?thesis
        by (auto simp: ws split: if_splits intro: take_drop_length)
    next
      case False
      with "2.prems" other obtain i where "scanNumber (c # cs) = Some (i, r)"
        by (auto simp: ws split: option.splits)
      from scanNumber_length[OF this] show ?thesis .
    qed
    with len show ?thesis by simp
  qed
next
  case (3 s)
  then show ?case by simp
next
  case (4 fuel s)
  from "4.prems" obtain v r1 where v: "parseValue fuel s = Some (v, r1)"
    by (auto split: option.splits)
  from "4.prems" v obtain c cs where ws: "skipWs r1 = c # cs"
    by (cases "skipWs r1") auto
  have l1: "length r1 < length s" using "4.IH"(1)[OF v] .
  note l2 = skipWs_Cons_length[OF ws]
  show ?case
  proof (cases "c = CHR '']''")
    case True
    with "4.prems" v ws have "r' = cs" by simp
    with l1 l2 show ?thesis by simp
  next
    case False
    with "4.prems" v ws have comma: "c = CHR '',''"
      by (auto split: if_splits)
    with "4.prems" v ws False obtain ws' where rest: "parseElements fuel cs = Some (ws', r')"
      by (auto split: option.splits)
    from "4.IH"(2)[OF v refl ws False comma rest] l1 l2 show ?thesis by simp
  qed
next
  case (5 s)
  then show ?case by simp
next
  case (6 fuel s)
  from "6.prems" obtain q cs where ws: "skipWs s = q # cs"
    by (cases "skipWs s") auto
  from "6.prems" ws have q: "\<not> q \<noteq> CHR 0x22" by (auto split: if_splits)
  from "6.prems" ws q obtain k r1 where k: "scanString cs = Some (k, r1)"
    by (auto split: option.splits)
  from "6.prems" ws q k obtain colon r2 where ws2: "skipWs r1 = colon # r2"
    by (cases "skipWs r1") auto
  from "6.prems" ws q k ws2 have colon: "\<not> colon \<noteq> CHR '':''" by (auto split: if_splits)
  from "6.prems" ws q k ws2 colon obtain v r3 where v: "parseValue fuel r2 = Some (v, r3)"
    by (auto split: option.splits)
  from "6.prems" ws q k ws2 colon v obtain c r4 where ws3: "skipWs r3 = c # r4"
    by (cases "skipWs r3") auto
  have l: "length cs < length s" "length r1 < length cs" "length r2 < length r1"
    using skipWs_Cons_length[OF ws] scanString_length[OF k] skipWs_Cons_length[OF ws2] by auto
  have l3: "length r3 < length r2"
    using "6.IH"(1)[OF ws q k refl ws2 colon v] by simp
  note l4 = skipWs_Cons_length[OF ws3]
  show ?case
  proof (cases "c = CHR ''}''")
    case True
    with "6.prems" ws q k ws2 colon v ws3 have "r'' = r4" by simp
    with l l3 l4 show ?thesis by simp
  next
    case False
    with "6.prems" ws q k ws2 colon v ws3 have comma: "c = CHR '',''"
      by (auto split: if_splits)
    with "6.prems" ws q k ws2 colon v ws3 False obtain ms' where
      rest: "parseMembers fuel r4 = Some (ms', r'')"
      by (auto split: option.splits)
    from "6.IH"(2)[OF ws q k refl ws2 colon v refl ws3 False comma rest] l l3 l4
    show ?thesis by simp
  qed
qed


lemmas parse_simps = parseValue.simps parseElements.simps parseMembers.simps

lemma parse_Suc:
  "parseValue n s = Some x \<Longrightarrow> parseValue (Suc n) s = Some x"
  "parseElements n s = Some y \<Longrightarrow> parseElements (Suc n) s = Some y"
  "parseMembers n s = Some z \<Longrightarrow> parseMembers (Suc n) s = Some z"
proof (induction n s and n s and n s arbitrary: x and y and z
    rule: parseValue_parseElements_parseMembers.induct)
  case (1 s)
  then show ?case by simp
next
  case (2 fuel s)
  from "2.prems" obtain c cs where ws: "skipWs s = c # cs"
    by (cases "skipWs s") auto
  consider (arr) "c = CHR ''[''" | (obj) "c \<noteq> CHR ''[''" "c = CHR ''{''"
    | (other) "c \<noteq> CHR ''[''" "c \<noteq> CHR ''{''"
    by blast
  then show ?case
  proof cases
    case arr
    from "2.prems" obtain c1 cs1 where ws1: "skipWs cs = c1 # cs1"
      by (cases "skipWs cs") (auto simp: ws arr)
    show ?thesis
    proof (cases "c1 = CHR '']''")
      case True
      with "2.prems" show ?thesis
        by (subst parseValue.simps(2)) (simp add: ws arr ws1)
    next
      case False
      with "2.prems" obtain vs r where e: "parseElements fuel cs = Some (vs, r)"
        and x: "x = (JArr vs, r)"
        by (auto simp: ws arr ws1 split: option.splits)
      from "2.IH"(1)[OF ws arr ws1 False e] x False show ?thesis
        by (subst parseValue.simps(2)) (simp add: ws arr ws1 del: parse_simps)
    qed
  next
    case obj
    from "2.prems" obtain c1 cs1 where ws1: "skipWs cs = c1 # cs1"
      by (cases "skipWs cs") (auto simp: ws obj)
    show ?thesis
    proof (cases "c1 = CHR ''}''")
      case True
      with "2.prems" show ?thesis
        by (subst parseValue.simps(2)) (simp add: ws obj ws1)
    next
      case False
      with "2.prems" obtain ms r where e: "parseMembers fuel cs = Some (ms, r)"
        and x: "x = (JObj ms, r)"
        by (auto simp: ws obj ws1 split: option.splits)
      from "2.IH"(2)[OF ws obj ws1 False e] x False obj show ?thesis
        by (subst parseValue.simps(2)) (simp add: ws ws1 del: parse_simps)
    qed
  next
    case other
    with "2.prems" show ?thesis
      by (subst parseValue.simps(2)) (simp add: ws)
  qed
next
  case (3 s)
  then show ?case by simp
next
  case (4 fuel s)
  from "4.prems" obtain v r1 where v: "parseValue fuel s = Some (v, r1)"
    by (auto split: option.splits)
  from "4.prems" v obtain c cs where ws: "skipWs r1 = c # cs"
    by (cases "skipWs r1") auto
  note v' = "4.IH"(1)[OF v]
  show ?case
  proof (cases "c = CHR '']''")
    case True
    with "4.prems" v ws have "y = ([v], cs)" by simp
    with v' ws True show ?thesis
      by (subst parseElements.simps(2)) (simp del: parse_simps)
  next
    case False
    with "4.prems" v ws have comma: "c = CHR '',''"
      by (auto split: if_splits)
    with "4.prems" v ws False obtain vs r where rest: "parseElements fuel cs = Some (vs, r)"
      and y: "y = (v # vs, r)"
      by (auto split: option.splits)
    from "4.IH"(2)[OF v refl ws False comma rest] y v' ws False comma show ?thesis
      by (subst parseElements.simps(2)) (simp del: parse_simps)
  qed
next
  case (5 s)
  then show ?case by simp
next
  case (6 fuel s)
  from "6.prems" obtain q cs where ws: "skipWs s = q # cs"
    by (cases "skipWs s") auto
  from "6.prems" ws have q: "\<not> q \<noteq> CHR 0x22" by (auto split: if_splits)
  from "6.prems" ws q obtain k r1 where k: "scanString cs = Some (k, r1)"
    by (auto split: option.splits)
  from "6.prems" ws q k obtain colon r2 where ws2: "skipWs r1 = colon # r2"
    by (cases "skipWs r1") auto
  from "6.prems" ws q k ws2 have colon: "\<not> colon \<noteq> CHR '':''" by (auto split: if_splits)
  from "6.prems" ws q k ws2 colon obtain v r3 where v: "parseValue fuel r2 = Some (v, r3)"
    by (auto split: option.splits)
  from "6.prems" ws q k ws2 colon v obtain c r4 where ws3: "skipWs r3 = c # r4"
    by (cases "skipWs r3") auto
  note v' = "6.IH"(1)[OF ws q k refl ws2 colon v]
  show ?case
  proof (cases "c = CHR ''}''")
    case True
    with "6.prems" ws q k ws2 colon v ws3 have "z = ([(k, v)], r4)" by simp
    with ws q k ws2 colon v' ws3 True show ?thesis
      by (subst parseMembers.simps(2)) (simp del: parse_simps)
  next
    case False
    with "6.prems" ws q k ws2 colon v ws3 have comma: "c = CHR '',''"
      by (auto split: if_splits)
    with "6.prems" ws q k ws2 colon v ws3 False obtain ms r where
      rest: "parseMembers fuel r4 = Some (ms, r)" and z: "z = ((k, v) # ms, r)"
      by (auto split: option.splits)
    from "6.IH"(2)[OF ws q k refl ws2 colon v refl ws3 False comma rest]
      z ws q k ws2 colon v' ws3 False comma
    show ?thesis
      by (subst parseMembers.simps(2)) (simp del: parse_simps)
  qed
qed

lemma parse_mono:
  assumes "n \<le> m"
  shows "parseValue n s = Some x \<Longrightarrow> parseValue m s = Some x"
    and "parseElements n s = Some y \<Longrightarrow> parseElements m s = Some y"
    and "parseMembers n s = Some z \<Longrightarrow> parseMembers m s = Some z"
  using assms by (induction m rule: dec_induct) (simp_all add: parse_Suc del: parse_simps)


lemma parse_fuel_used:
  "parseValue n s = Some (v, r) \<Longrightarrow> parseValue (length s - length r) s = Some (v, r)"
  "parseElements n s = Some (vs, r') \<Longrightarrow> parseElements (length s - length r') s = Some (vs, r')"
  "parseMembers n s = Some (ms, r'') \<Longrightarrow> parseMembers (length s - length r'') s = Some (ms, r'')"
proof (induction n s and n s and n s arbitrary: v r and vs r' and ms r''
    rule: parseValue_parseElements_parseMembers.induct)
  case (1 s)
  then show ?case by simp
next
  case (2 fuel s)
  from parse_length(1)[OF "2.prems"] obtain m where m: "length s - length r = Suc m"
    by (cases "length s - length r") auto
  from "2.prems" obtain c cs where ws: "skipWs s = c # cs"
    by (cases "skipWs s") auto
  note len = skipWs_Cons_length[OF ws]
  consider (arr) "c = CHR ''[''" | (obj) "c \<noteq> CHR ''[''" "c = CHR ''{''"
    | (other) "c \<noteq> CHR ''[''" "c \<noteq> CHR ''{''"
    by blast
  then show ?case
  proof cases
    case arr
    from "2.prems" obtain c1 cs1 where ws1: "skipWs cs = c1 # cs1"
      by (cases "skipWs cs") (auto simp: ws arr)
    show ?thesis
    proof (cases "c1 = CHR '']''")
      case True
      with "2.prems" show ?thesis
        unfolding m by (subst parseValue.simps(2)) (simp add: ws arr ws1)
    next
      case False
      with "2.prems" obtain ws' where e: "parseElements fuel cs = Some (ws', r)"
        and v: "v = JArr ws'"
        by (auto simp: ws arr ws1 split: option.splits)
      have "length cs - length r \<le> m" using m len by simp
      from parse_mono(2)[OF this "2.IH"(1)[OF ws arr ws1 False e]] v False show ?thesis
        unfolding m by (subst parseValue.simps(2)) (simp add: ws arr ws1 del: parse_simps)
    qed
  next
    case obj
    from "2.prems" obtain c1 cs1 where ws1: "skipWs cs = c1 # cs1"
      by (cases "skipWs cs") (auto simp: ws obj)
    show ?thesis
    proof (cases "c1 = CHR ''}''")
      case True
      with "2.prems" show ?thesis
        unfolding m by (subst parseValue.simps(2)) (simp add: ws obj ws1)
    next
      case False
      with "2.prems" obtain ms' where e: "parseMembers fuel cs = Some (ms', r)"
        and v: "v = JObj ms'"
        by (auto simp: ws obj ws1 split: option.splits)
      have "length cs - length r \<le> m" using m len by simp
      from parse_mono(3)[OF this "2.IH"(2)[OF ws obj ws1 False e]] v False obj show ?thesis
        unfolding m by (subst parseValue.simps(2)) (simp add: ws ws1 del: parse_simps)
    qed
  next
    case other
    with "2.prems" show ?thesis
      unfolding m by (subst parseValue.simps(2)) (simp add: ws)
  qed
next
  case (3 s)
  then show ?case by simp
next
  case (4 fuel s)
  from parse_length(2)[OF "4.prems"] obtain m where m: "length s - length r' = Suc m"
    by (cases "length s - length r'") auto
  from "4.prems" obtain v r1 where v: "parseValue fuel s = Some (v, r1)"
    by (auto split: option.splits)
  from "4.prems" v obtain c cs where ws: "skipWs r1 = c # cs"
    by (cases "skipWs r1") auto
  note l1 = parse_length(1)[OF v]
  note l2 = skipWs_Cons_length[OF ws]
  note v0 = "4.IH"(1)[OF v]
  show ?case
  proof (cases "c = CHR '']''")
    case True
    with "4.prems" v ws have r: "r' = cs" and vs: "vs = [v]" by simp_all
    have "length s - length r1 \<le> m" using m l1 l2 r by simp
    from parse_mono(1)[OF this v0] ws True vs r show ?thesis
      unfolding m by (subst parseElements.simps(2)) (simp del: parse_simps)
  next
    case False
    with "4.prems" v ws have comma: "c = CHR '',''"
      by (auto split: if_splits)
    with "4.prems" v ws False obtain ws' where rest: "parseElements fuel cs = Some (ws', r')"
      and vs: "vs = v # ws'"
      by (auto split: option.splits)
    note l3 = parse_length(2)[OF rest]
    have "length s - length r1 \<le> m" using m l1 l2 l3 by simp
    note v1 = parse_mono(1)[OF this v0]
    have "length cs - length r' \<le> m" using m l1 l2 l3 by simp
    from parse_mono(2)[OF this "4.IH"(2)[OF v refl ws False comma rest]] v1 ws False comma vs
    show ?thesis
      unfolding m by (subst parseElements.simps(2)) (simp del: parse_simps)
  qed
next
  case (5 s)
  then show ?case by simp
next
  case (6 fuel s)
  from parse_length(3)[OF "6.prems"] obtain m where m: "length s - length r'' = Suc m"
    by (cases "length s - length r''") auto
  from "6.prems" obtain q cs where ws: "skipWs s = q # cs"
    by (cases "skipWs s") auto
  from "6.prems" ws have q: "\<not> q \<noteq> CHR 0x22" by (auto split: if_splits)
  from "6.prems" ws q obtain k r1 where k: "scanString cs = Some (k, r1)"
    by (auto split: option.splits)
  from "6.prems" ws q k obtain colon r2 where ws2: "skipWs r1 = colon # r2"
    by (cases "skipWs r1") auto
  from "6.prems" ws q k ws2 have colon: "\<not> colon \<noteq> CHR '':''" by (auto split: if_splits)
  from "6.prems" ws q k ws2 colon obtain v r3 where v: "parseValue fuel r2 = Some (v, r3)"
    by (auto split: option.splits)
  from "6.prems" ws q k ws2 colon v obtain c r4 where ws3: "skipWs r3 = c # r4"
    by (cases "skipWs r3") auto
  have l: "length cs < length s" "length r1 < length cs" "length r2 < length r1"
    "length r3 < length r2" "length r4 < length r3"
    using skipWs_Cons_length[OF ws] scanString_length[OF k] skipWs_Cons_length[OF ws2]
      parse_length(1)[OF v] skipWs_Cons_length[OF ws3] by auto
  note v0 = "6.IH"(1)[OF ws q k refl ws2 colon v]
  show ?case
  proof (cases "c = CHR ''}''")
    case True
    with "6.prems" ws q k ws2 colon v ws3 have r: "r'' = r4" and ms: "ms = [(k, v)]"
      by simp_all
    have "length r2 - length r3 \<le> m" using m l r by simp
    from parse_mono(1)[OF this v0] ws q k ws2 colon ws3 True ms r show ?thesis
      unfolding m by (subst parseMembers.simps(2)) (simp del: parse_simps)
  next
    case False
    with "6.prems" ws q k ws2 colon v ws3 have comma: "c = CHR '',''"
      by (auto split: if_splits)
    with "6.prems" ws q k ws2 colon v ws3 False obtain ms' where
      rest: "parseMembers fuel r4 = Some (ms', r'')" and ms: "ms = (k, v) # ms'"
      by (auto split: option.splits)
    note l5 = parse_length(3)[OF rest]
    have "length r2 - length r3 \<le> m" using m l l5 by simp
    note v1 = parse_mono(1)[OF this v0]
    have "length r4 - length r'' \<le> m" using m l l5 by simp
    from parse_mono(3)[OF this "6.IH"(2)[OF ws q k refl ws2 colon v refl ws3 False comma rest]]
      v1 ws q k ws2 colon ws3 False comma ms
    show ?thesis
      unfolding m by (subst parseMembers.simps(2)) (simp del: parse_simps)
  qed
qed

text \<open>More fuel than the length of the text changes nothing in what \<open>parseValue\<close> returns.\<close>

lemma parseValue_fuel:
  assumes "length s \<le> m"
  shows "parseValue m s = parseValue (length s) s"
proof (cases "parseValue m s")
  case None
  show ?thesis
  proof (cases "parseValue (length s) s")
    case None
    with \<open>parseValue m s = None\<close> show ?thesis by simp
  next
    case (Some x)
    from parse_mono(1)[OF assms Some] None show ?thesis by simp
  qed
next
  case (Some x)
  obtain v r where x: "x = (v, r)" by (cases x)
  from parse_fuel_used(1)[OF Some[unfolded x]]
  have "parseValue (length s - length r) s = Some (v, r)" .
  from parse_mono(1)[OF _ this, of "length s"] Some x show ?thesis by simp
qed

subsection \<open>Saving and loading\<close>

lemma caseOfJson_jsonOfCase: "caseOfJson (jsonOfCase c) = Some c"
  by (cases c) (simp add: caseOfJson_def jsonOfCase_def strProp_def numProp_def getProp_def)

lemma those_map_Some: "(\<And>x. x \<in> set xs \<Longrightarrow> f (g x) = Some x) \<Longrightarrow> those (map (f \<circ> g) xs) = Some xs"
  by (induction xs) auto

lemma casesOfJson_roundtrip: "casesOfJson (JArr (map jsonOfCase cs)) = Some cs"
  using those_map_Some[of cs caseOfJson jsonOfCase]
  by (simp add: casesOfJson_def caseOfJson_jsonOfCase)

lemma JSON_stringify_nonempty: "JSON_stringify cs \<noteq> []"
  by (simp add: JSON_stringify_def)

lemma parse_stringified_cases: "JSON_parse (JSON_stringify cs) = Inr (JArr (map jsonOfCase cs))"
  unfolding JSON_stringify_def by (rule JSON_parse_stringify)

lemma load_stored:
  assumes "getItem st ''courtCases'' = Some (JSON_stringify cs)"
  shows "loadCasesFromStorage st prev = Some cs"
  using assms
  by (simp add: loadCasesFromStorage_def JSON_stringify_nonempty parse_stringified_cases
      casesOfJson_roundtrip)

lemma getItem_setItem:
  "setItem st k v = Inr st' \<Longrightarrow> getItem st' k = Some v"
  by (auto simp: setItem_def getItem_def Let_def split: if_splits)

text \<open>
  A write that the storage refuses changes nothing: the exception is caught, and the
  storage, the text stored under the key in it, is what it was.
\<close>

lemma saveCasesToStorage_refused:
  assumes "fst (saveCasesToStorage cs st) \<noteq> None"
  shows "fst (saveCasesToStorage cs st) = Some QuotaExceededError"
    and "snd (saveCasesToStorage cs st) = st"
  using assms
  by (auto simp: saveCasesToStorage_def setItem_def Let_def split: sum.splits if_splits)

text \<open>
  The claim C7 as it stands, that loading after saving yields the saved cases whatever
  they are, fails when the storage refuses the write: with room for ten code units
  \<open>setItem\<close> throws, \<open>saveCasesToStorage\<close> catches the exception, nothing is
  stored, and loading leaves the empty array of the start where one case was saved.
\<close>

theorem save_then_load_quota:
  "fst (saveCasesToStorage
          [sampleCase 7 ''CV-AB-2024'' ''Abdul Rahman'' ''2024-01-31'' ''Closed'']
          \<lparr>items = [], quota = 10\<rparr>) = Some QuotaExceededError \<and>
   loadCasesFromStorage
     (snd (saveCasesToStorage
             [sampleCase 7 ''CV-AB-2024'' ''Abdul Rahman'' ''2024-01-31'' ''Closed'']
             \<lparr>items = [], quota = 10\<rparr>)) [] = Some []"
proof -
  let ?cs = "[sampleCase 7 ''CV-AB-2024'' ''Abdul Rahman'' ''2024-01-31'' ''Closed'']"
  have "setItem \<lparr>items = [], quota = 10\<rparr> ''courtCases'' (JSON_stringify ?cs)
          = Inl QuotaExceededError"
    by (simp add: setItem_def usage_def JSON_stringify_nonempty)
  then show ?thesis
    by (simp add: saveCasesToStorage_def loadCasesFromStorage_def getItem_def)
qed

text \<open>
  C7, amended. When \<open>saveCasesToStorage\<close> catches no exception (the storage took the
  write), \<open>loadCasesFromStorage\<close> after it sets the case array to the cases that were
  saved: the same cases, every field of each, in the same order.
\<close>

theorem save_then_load:
  assumes "fst (saveCasesToStorage cs st) = None"
  shows "loadCasesFromStorage (snd (saveCasesToStorage cs st)) prev = Some cs"
proof (cases "setItem st ''courtCases'' (JSON_stringify cs)")
  case (Inl e)
  with assms show ?thesis by (simp add: saveCasesToStorage_def)
next
  case (Inr st')
  then have "getItem st' ''courtCases'' = Some (JSON_stringify cs)"
    by (rule getItem_setItem)
  with Inr show ?thesis
    by (simp add: saveCasesToStorage_def load_stored)
qed

lemma save_fits:
  assumes "usage ((''courtCases'', JSON_stringify cs) #
             filter (\<lambda>(k', v'). k' \<noteq> ''courtCases'') (items st)) \<le> quota st"
  shows "fst (saveCasesToStorage cs st) = None"
  using assms by (simp add: saveCasesToStorage_def setItem_def Let_def)

theorem save_then_load_witness:
  "fst (saveCasesToStorage
          [sampleCase 7 ''CV-AB-2024'' ''Abdul Rahman'' ''2024-01-31'' ''Closed'',
           sampleCase 8 [CHR ''C'', CHR 0x22, CHR 0x5C, CHR 0x0A, CHR 0x01] ''Meera Nair''
             ''2024-02-01'' ''Pending'']
          \<lparr>items = [(''courtCases'', ''[]'')], quota = 5000000\<rparr>) = None \<and>
   loadCasesFromStorage
     (snd (saveCasesToStorage
             [sampleCase 7 ''CV-AB-2024'' ''Abdul Rahman'' ''2024-01-31'' ''Closed'',
              sampleCase 8 [CHR ''C'', CHR 0x22, CHR 0x5C, CHR 0x0A, CHR 0x01] ''Meera Nair''
                ''2024-02-01'' ''Pending'']
             \<lparr>items = [(''courtCases'', ''[]'')], quota = 5000000\<rparr>)) []
   = Some [sampleCase 7 ''CV-AB-2024'' ''Abdul Rahman'' ''2024-01-31'' ''Closed'',
           sampleCase 8 [CHR ''C'', CHR 0x22, CHR 0x5C, CHR 0x0A, CHR 0x01] ''Meera Nair''
             ''2024-02-01'' ''Pending'']"
proof -
  let ?cs = "[sampleCase 7 ''CV-AB-2024'' ''Abdul Rahman'' ''2024-01-31'' ''Closed'',
              sampleCase 8 [CHR ''C'', CHR 0x22, CHR 0x5C, CHR 0x0A, CHR 0x01] ''Meera Nair''
                ''2024-02-01'' ''Pending'']"
  let ?st = "\<lparr>items = [(''courtCases'', ''[]'')], quota = 5000000\<rparr>"
  have saved: "fst (saveCasesToStorage ?cs ?st) = None"
    by (rule save_fits)
       (simp add: usage_def JSON_stringify_def jsonOfCase_def sampleCase_def
          QuoteJSONString_def escapeChar_def numberToString_def digitsOfNat.simps)
  from save_then_load [OF saved, of "[]"] saved show ?thesis
    by simp
qed

end
